theory Spec2Isabelle
  imports Main "HOL-Library.AList"
begin


section \<open>Web client: routing table (webapp/src/router.tsx)\<close>

text \<open>
  The components a route can render. \<open>createBrowserRouter\<close> receives a list of route
  objects; a route object has an optional \<open>path\<close>, an \<open>index\<close> flag (absent means
  false), an \<open>element\<close> and optional \<open>children\<close> (absent means none).
\<close>

datatype element = AppLayout | DashboardPage | PartsPage | TasksPage

datatype route =
  Route (path: "string option") (index: bool) (element: element) (children: "route list")

definition router :: "route list" where
  "router =
     [Route (Some ''/'') False AppLayout
        [Route None True DashboardPage [],
         Route (Some ''parts'') False PartsPage [],
         Route (Some ''tasks'') False TasksPage []]]"

text \<open>The page routes of a routing table are its leaves: the routes without children.\<close>

fun page_routes :: "route \<Rightarrow> route list" where
  "page_routes (Route p i e cs) =
     (if cs = [] then [Route p i e cs] else concat (map page_routes cs))"

definition pages_of :: "route list \<Rightarrow> route list" where
  "pages_of rs = concat (map page_routes rs)"

section \<open>Web client: the parts service (services/parts)\<close>

record Part =
  id_part :: int
  name :: string
  sku :: string
  qty :: int
  min_qty :: int

record 'a PaginatedResponse =
  items :: "'a list"
  total_resp :: int
  page :: int
  page_size :: int

text \<open>
  What \<open>axios.get\<close> is called with: the URL and the query parameters. The HTTP client is
  a parameter of the model: it answers a request with the response data or with an error
  (a rejected promise).
\<close>

record AxiosRequest =
  url :: string
  params :: "(string \<times> int) list"

type_synonym ('e, 'a) http_get = "AxiosRequest \<Rightarrow> 'e + 'a PaginatedResponse"

text \<open>
  The \<open>queryFn\<close> of \<open>useParts\<close>: one GET of \<open>/api/parts\<close> with the literal parameters
  \<open>page: 1, page_size: 50\<close>; the result is \<open>response.data\<close>, a rejection propagates.
  The second component is the list of requests issued, in order.
\<close>

definition parts_request :: AxiosRequest where
  "parts_request = \<lparr>url = ''/api/parts'', params = [(''page'', 1), (''page_size'', 50)]\<rparr>"

definition useParts_queryFn ::
  "('e, Part) http_get \<Rightarrow> ('e + Part PaginatedResponse) \<times> AxiosRequest list" where
  "useParts_queryFn axios_get = (axios_get parts_request, [parts_request])"

text \<open>
  \<open>PartsPage\<close> runs the query when it mounts and once more for every click on the refresh
  button (\<open>refetch\<close>); each run is the same \<open>queryFn\<close>. The requests of \<open>n\<close> refetches
  after the first load:
\<close>

fun PartsPage_requests :: "('e, Part) http_get \<Rightarrow> nat \<Rightarrow> AxiosRequest list" where
  "PartsPage_requests axios_get 0 = snd (useParts_queryFn axios_get)"
| "PartsPage_requests axios_get (Suc n) =
     PartsPage_requests axios_get n @ snd (useParts_queryFn axios_get)"

text \<open>A query parameter of a request; an absent one reads as 0.\<close>

definition param :: "AxiosRequest \<Rightarrow> string \<Rightarrow> int" where
  "param r k = (case map_of (params r) k of Some v \<Rightarrow> v | None \<Rightarrow> 0)"

text \<open>
  Modelled from the spec: the paginated list endpoint of the backend, which is not among
  the sources. Its request and response shape is ``(page, page_size, items, total)'';
  docs/API_EXAMPLES.md shows \<open>GET /api/parts?page=1&page_size=25\<close> answered with one page
  of \<open>items\<close>, the \<open>total\<close>, and the \<open>page\<close> and \<open>page_size\<close> asked for. This is a server
  that honours pagination over the catalogue \<open>catalogue\<close>.
\<close>

definition paginating_server :: "Part list \<Rightarrow> ('e, Part) http_get" where
  "paginating_server catalogue r =
     Inr \<lparr>items = take (nat (param r ''page_size''))
                    (drop (nat ((param r ''page'' - 1) * param r ''page_size'')) catalogue),
          total_resp = int (length catalogue),
          page = param r ''page'',
          page_size = param r ''page_size''\<rparr>"

section \<open>Web client: the service worker (service-worker.js)\<close>

text \<open>
  What the worker handles of a request: its method, its URL (with the fragment, if it
  has one) and its headers. URLs are written as the source writes them, relative to the
  origin of the worker. What it handles of a response: the status, the field values
  of the \<open>Vary\<close> header (none when there is no such header) and the body. The network
  answers a request with a response of any status, or fails with a network error.
\<close>

record Request =
  request_method :: string
  request_url :: string
  request_headers :: "(string \<times> string) list"

record Response =
  response_status :: nat
  response_vary :: "string list"
  response_body :: string

type_synonym network = "Request \<Rightarrow> Response option"

text \<open>
  A cache holds pairs of a request and the response stored for it, in insertion order;
  the cache storage \<open>caches\<close> holds the named caches in creation order.
\<close>

type_synonym Cache = "(Request \<times> Response) list"
type_synonym CacheStorage = "(string \<times> Cache) list"

text \<open>
  The request the Cache API makes of a URL string, as \<open>cache.addAll\<close> does for each
  element of its argument: a GET without headers of its own.
\<close>

definition get_request :: "string \<Rightarrow> Request" where
  "get_request u = \<lparr>request_method = ''GET'', request_url = u, request_headers = []\<rparr>"

text \<open>A URL without its fragment: the part before the first \<open>#\<close>.\<close>

definition exclude_fragment :: "string \<Rightarrow> string" where
  "exclude_fragment u = takeWhile (\<lambda>c. c \<noteq> CHR ''#'') u"

text \<open>The values a header list gives for a header name.\<close>

definition header_values :: "string \<Rightarrow> (string \<times> string) list \<Rightarrow> string list" where
  "header_values h hs = map snd (filter (\<lambda>(n, v). n = h) hs)"

text \<open>
  When a request matches a cached item, with the default options of \<open>match\<close> and \<open>put\<close>:
  only a GET request matches; the URLs are compared without their fragments; and for
  every field value of the \<open>Vary\<close> header of the cached response, the value is not \<open>*\<close>
  and the cached request and the request give the same values for that header.
\<close>

definition request_matches_cached_item :: "Request \<Rightarrow> Request \<times> Response \<Rightarrow> bool" where
  "request_matches_cached_item query item =
     (request_method query = ''GET'' \<and>
      exclude_fragment (request_url query) = exclude_fragment (request_url (fst item)) \<and>
      list_all (\<lambda>h. h \<noteq> ''*'' \<and>
                 header_values h (request_headers (fst item)) =
                 header_values h (request_headers query))
        (response_vary (snd item)))"

text \<open>\<open>caches.open\<close> creates the cache when it does not exist.\<close>

definition caches_open :: "string \<Rightarrow> CacheStorage \<Rightarrow> CacheStorage" where
  "caches_open cache_name cs =
     (if cache_name \<in> fst ` set cs then cs else cs @ [(cache_name, [])])"

text \<open>The cache of a given name, as \<open>caches.open\<close> resolves to it.\<close>

definition cache_of :: "CacheStorage \<Rightarrow> string \<Rightarrow> Cache" where
  "cache_of cs cache_name = (case map_of cs cache_name of Some c \<Rightarrow> c | None \<Rightarrow> [])"

text \<open>
  The responses \<open>cache.addAll\<close> accepts: the status is an ok status (200 to 299) other
  than 206, and the \<open>Vary\<close> header has no field value \<open>*\<close>.
\<close>

definition cacheable :: "Response \<Rightarrow> bool" where
  "cacheable r =
     (200 \<le> response_status r \<and> response_status r \<le> 299 \<and> response_status r \<noteq> 206 \<and>
      ''*'' \<notin> set (response_vary r))"

text \<open>
  \<open>cache.addAll\<close> fetches every request; it rejects when a fetch fails with a network
  error or answers with a response that is not accepted.
\<close>

fun fetch_each :: "network \<Rightarrow> Request list \<Rightarrow> (Request \<times> Response) list option" where
  "fetch_each net [] = Some []"
| "fetch_each net (q # qs) =
     (case net q of
        None \<Rightarrow> None
      | Some r \<Rightarrow>
          if cacheable r
          then (case fetch_each net qs of None \<Rightarrow> None | Some rs \<Rightarrow> Some ((q, r) # rs))
          else None)"

text \<open>
  The batch of \<open>put\<close> operations that ends \<open>cache.addAll\<close>. Each operation removes the
  items its request matches and appends its own pair; the batch fails, and the cache
  stays as it was, when a request matches an item that the batch itself has added.
\<close>

fun batch_put :: "(Request \<times> Response) list \<Rightarrow> (Request \<times> Response) list \<Rightarrow> Cache \<Rightarrow> Cache option" where
  "batch_put added [] c = Some c"
| "batch_put added ((q, r) # rest) c =
     (if list_ex (request_matches_cached_item q) added then None
      else batch_put (added @ [(q, r)]) rest
             (filter (\<lambda>item. \<not> request_matches_cached_item q item) c @ [(q, r)]))"

text \<open>
  \<open>cache.addAll\<close> on a list of URL strings: the new cache when it fulfils, \<open>None\<close> when it
  rejects, in which case nothing is stored.
\<close>

definition cache_addAll :: "network \<Rightarrow> string list \<Rightarrow> Cache \<Rightarrow> Cache option" where
  "cache_addAll net urls c =
     (case fetch_each net (map get_request urls) of
        None \<Rightarrow> None
      | Some rs \<Rightarrow> batch_put [] rs c)"

text \<open>
  The \<open>install\<close> listener. The result is the cache storage afterwards, whether the promise
  given to \<open>event.waitUntil\<close> was fulfilled, and the requests sent to the network.
\<close>

definition install_listener :: "network \<Rightarrow> CacheStorage \<Rightarrow> CacheStorage \<times> bool \<times> Request list" where
  "install_listener net cs =
     (let urls = [''/'', ''/manifest.webmanifest''];
          cs1 = caches_open ''static-v1'' cs
      in case cache_addAll net urls (cache_of cs1 ''static-v1'') of
           None \<Rightarrow> (cs1, False, map get_request urls)
         | Some c \<Rightarrow> (AList.update ''static-v1'' c cs1, True, map get_request urls))"

text \<open>
  \<open>cache.match\<close> resolves to the response of the first item of the cache that the
  request matches, or to \<open>undefined\<close>.
\<close>

definition cache_match :: "Request \<Rightarrow> Cache \<Rightarrow> Response option" where
  "cache_match query c =
     (case filter (request_matches_cached_item query) c of
        [] \<Rightarrow> None
      | item # rest \<Rightarrow> Some (snd item))"

text \<open>
  \<open>caches.match\<close> asks every cache, in creation order, and resolves to the first
  response found or to \<open>undefined\<close>.
\<close>

fun caches_match :: "Request \<Rightarrow> CacheStorage \<Rightarrow> Response option" where
  "caches_match query [] = None"
| "caches_match query ((n, c) # cs) =
     (case cache_match query c of Some r \<Rightarrow> Some r | None \<Rightarrow> caches_match query cs)"

text \<open>
  The \<open>fetch\<close> listener: \<open>response || fetch(event.request)\<close>. A response object is
  truthy, so the right operand runs only for \<open>undefined\<close>. The result is what
  \<open>event.respondWith\<close> receives (\<open>None\<close>: the network fetch failed) and the requests sent
  to the network.
\<close>

definition fetch_listener :: "network \<Rightarrow> CacheStorage \<Rightarrow> Request \<Rightarrow> Response option \<times> Request list" where
  "fetch_listener net cs req =
     (case caches_match req cs of
        Some r \<Rightarrow> (Some r, [])
      | None \<Rightarrow> (net req, [req]))"

section \<open>Data migration: the transfer script (migration/transfer.py)\<close>

text \<open>
  docs/MIGRATION.md documents the script \<open>migration/transfer.py\<close> and how it is invoked;
  the script itself is not among the sources. Every definition of this section is
  therefore modelled from the specification of the Legacy Store Reader, the Row Mapper
  and the Transfer Engine, and says which sentences it follows.
\<close>

subsection \<open>Rows and the Row Mapper\<close>

text \<open>
  Modelled from the spec: the row format of \<open>migration/transfer.py\<close>. A row gives a value
  to each of its columns; a value is null, an integer (keys, epoch timestamps, counters)
  or a text; timestamps stay epoch integers in the model.
\<close>

datatype cell = Null | IntCell int | TextCell string

type_synonym row = "(string \<times> cell) list"

text \<open>
  Modelled from the spec: reading a column of a row of \<open>migration/transfer.py\<close>; a
  column the row does not have reads as null, which is how a ``missing primary key'' and
  an ``unexpected null'' show.
\<close>

definition column :: "row \<Rightarrow> string \<Rightarrow> cell" where
  "column r c = (case map_of r c of Some v \<Rightarrow> v | None \<Rightarrow> Null)"

text \<open>
  Modelled from the spec: the per-table mapping rules of \<open>migration/transfer.py\<close>, which
  the specification names without listing them (``field renames'', ``required-field
  presence'', ``foreign-key-shaped value''). They are a parameter: the column that holds
  the primary key after mapping, the renamed columns (legacy name, destination name),
  the columns that should not be null, and the foreign keys (column, referenced
  destination table, referenced column).
\<close>

record TableMapping =
  primary_key :: string
  renames :: "(string \<times> string) list"
  required :: "string list"
  foreign_keys :: "(string \<times> string \<times> string) list"

type_synonym schema = "string \<Rightarrow> TableMapping"

text \<open>
  Modelled from the spec: the TransferRecord of \<open>migration/transfer.py\<close>, ``one source row
  in flight. Attributes: source natural key, mapped destination payload, validation
  status (valid / warned / rejected)''.
\<close>

datatype status = Valid | Warned | Rejected

record TransferRecord =
  natural_key :: cell
  payload :: row
  status :: status

text \<open>
  Modelled from the spec: the field renames of the Row Mapper of
  \<open>migration/transfer.py\<close>. A column with a rename entry takes its destination name, any
  other column keeps its name.
\<close>

definition rename_columns :: "(string \<times> string) list \<Rightarrow> row \<Rightarrow> row" where
  "rename_columns rn r =
     map (\<lambda>(c, v). (case map_of rn c of Some c' \<Rightarrow> c' | None \<Rightarrow> c, v)) r"

text \<open>
  Modelled from the spec: the columns of a mapped row that the mapping rules of
  \<open>migration/transfer.py\<close> read as fields of the legacy row: the primary key, the
  required columns and the foreign-key columns.
\<close>

definition mapped_columns :: "TableMapping \<Rightarrow> string list" where
  "mapped_columns tm = primary_key tm # required tm @ map fst (foreign_keys tm)"

text \<open>
  Modelled from the spec: the default filling of the Row Mapper of
  \<open>migration/transfer.py\<close>, ``default-filling for newly introduced destination-only
  columns (e.g., audit timestamps absent in the legacy schema default to the current time
  at mapping time)''. The audit columns are \<open>created_at\<close> and \<open>updated_at\<close>
  (docs/DOMAIN.md). One is destination-only for a row when the row does not have it and
  the mapping rules do not read it as a field of the legacy row. The current time is the
  parameter \<open>now\<close>, an epoch integer.
\<close>

definition fill_defaults :: "TableMapping \<Rightarrow> int \<Rightarrow> row \<Rightarrow> row" where
  "fill_defaults tm now r =
     r @ map (\<lambda>c. (c, IntCell now))
           (filter (\<lambda>c. map_of r c = None \<and> c \<notin> set (mapped_columns tm))
              [''created_at'', ''updated_at''])"

text \<open>
  Modelled from the spec: the ``foreign-key-shaped value plausibility'' check of the Row
  Mapper of \<open>migration/transfer.py\<close>. A foreign-key column holds a key, an integer, or
  null.
\<close>

fun key_shaped :: "cell \<Rightarrow> bool" where
  "key_shaped (TextCell s) = False"
| "key_shaped v = True"

text \<open>
  Modelled from the spec: the soft issues the Row Mapper of \<open>migration/transfer.py\<close>
  looks for, ``required-field presence, foreign-key-shaped value plausibility'': a
  required column that is null (``unexpected null''), or a foreign-key column whose value
  is not key-shaped.
\<close>

definition soft_issue :: "TableMapping \<Rightarrow> row \<Rightarrow> bool" where
  "soft_issue tm p =
     (list_ex (\<lambda>c. column p c = Null) (required tm) \<or>
      list_ex (\<lambda>(c, t, k). \<not> key_shaped (column p c)) (foreign_keys tm))"

text \<open>
  Modelled from the spec: the Row Mapper of \<open>migration/transfer.py\<close>,
  \<open>map(tableName, sourceRow) -> TransferRecord\<close>, given the mapping rules of the table.
  ``Produces status warned when a soft issue is found (e.g., unexpected null) and
  rejected when the row cannot be mapped at all (e.g., missing primary key)''. The
  natural key is the legacy primary key, read after the renames.
\<close>

definition map_row :: "TableMapping \<Rightarrow> int \<Rightarrow> row \<Rightarrow> TransferRecord" where
  "map_row tm now r =
     (let renamed = rename_columns (renames tm) r;
          k = column renamed (primary_key tm);
          p = fill_defaults tm now renamed
      in \<lparr>natural_key = k, payload = p,
          status = (if k = Null then Rejected
                    else if soft_issue tm p then Warned
                    else Valid)\<rparr>)"

subsection \<open>The destination store\<close>

text \<open>
  Modelled from the spec: the destination store that \<open>migration/transfer.py\<close> writes to.
  It holds the rows of each table in insertion order. Whether it enforces a uniqueness
  constraint on the key of a table, and whether it ``accepts nullable/deferred foreign
  keys'', are properties of the store. So is its connectivity, which the program does not
  decide: the store carries the number of writes it still answers before the connection
  to it is lost, if it is lost at all (\<open>None\<close>: the connection lasts).
\<close>

record Destination =
  tables :: "string \<Rightarrow> row list"
  enforces_unique :: "string \<Rightarrow> bool"
  deferred_foreign_keys :: bool
  writes_before_outage :: "nat option"

text \<open>
  Modelled from the spec: the ``row counts'' of the destination store of
  \<open>migration/transfer.py\<close>, per table.
\<close>

definition row_count :: "Destination \<Rightarrow> string \<Rightarrow> nat" where
  "row_count d t = length (tables d t)"

text \<open>
  Modelled from the spec: the lookup behind ``a row whose foreign key target has not yet
  been transferred'' and behind a uniqueness constraint of the destination store of
  \<open>migration/transfer.py\<close>: among the rows \<open>rows_of t\<close> of table \<open>t\<close>, is there one whose
  column \<open>kc\<close> holds \<open>k\<close>?
\<close>

definition key_present :: "(string \<Rightarrow> row list) \<Rightarrow> string \<Rightarrow> string \<Rightarrow> cell \<Rightarrow> bool" where
  "key_present rows_of t kc k = list_ex (\<lambda>r. column r kc = k) (rows_of t)"

text \<open>
  Modelled from the spec: the check of the Transfer Engine of \<open>migration/transfer.py\<close>
  for ``a row whose foreign key target has not yet been transferred'': some foreign-key
  column of the row holds a key that no row of the referenced table has.
\<close>

definition fk_target_missing :: "(string \<Rightarrow> row list) \<Rightarrow> TableMapping \<Rightarrow> row \<Rightarrow> bool" where
  "fk_target_missing rows_of tm p =
     list_ex (\<lambda>(c, t, kc). column p c \<noteq> Null \<and> \<not> key_present rows_of t kc (column p c))
       (foreign_keys tm)"

subsection \<open>The Transfer Engine\<close>

text \<open>
  Modelled from the spec: the TransferUnit of \<open>migration/transfer.py\<close>, ``one logical
  table-transfer job. Attributes: table name, ordered list of source rows, destination
  table identity, dependency predecessors''. The source rows are what the Legacy Store
  Reader returns for the table when the unit is run.
\<close>

record TransferUnit =
  table_name :: string
  destination_table :: string
  predecessors :: "string list"

text \<open>
  Modelled from the spec: the per-table part of the TransferReport of
  \<open>migration/transfer.py\<close>, ``per-table inserted count, per-table warning count, per-table
  rejection count''. The wall-clock duration is left out.
\<close>

record TableCounts =
  inserted :: nat
  warned :: nat
  rejected :: nat

type_synonym TransferReport = "string \<Rightarrow> TableCounts"

text \<open>
  Modelled from the spec: the TransferReport of \<open>migration/transfer.py\<close> at the start of
  a run, with all counts zero.
\<close>

definition empty_report :: TransferReport where
  "empty_report = (\<lambda>t. \<lparr>inserted = 0, warned = 0, rejected = 0\<rparr>)"

text \<open>
  Modelled from the spec: counting one inserted row of a table in the TransferReport of
  \<open>migration/transfer.py\<close>.
\<close>

definition count_inserted :: "string \<Rightarrow> TransferReport \<Rightarrow> TransferReport" where
  "count_inserted t rep = rep(t := (rep t)\<lparr>inserted := Suc (inserted (rep t))\<rparr>)"

text \<open>
  Modelled from the spec: counting one warned row of a table in the TransferReport of
  \<open>migration/transfer.py\<close>, when the row has a warning.
\<close>

definition count_warned :: "bool \<Rightarrow> string \<Rightarrow> TransferReport \<Rightarrow> TransferReport" where
  "count_warned w t rep = (if w then rep(t := (rep t)\<lparr>warned := Suc (warned (rep t))\<rparr>) else rep)"

text \<open>
  Modelled from the spec: counting one rejected row of a table in the TransferReport of
  \<open>migration/transfer.py\<close>.
\<close>

definition count_rejected :: "string \<Rightarrow> TransferReport \<Rightarrow> TransferReport" where
  "count_rejected t rep = rep(t := (rep t)\<lparr>rejected := Suc (rejected (rep t))\<rparr>)"

text \<open>
  Modelled from the spec: the options, the fatal faults and the observable steps of a
  run of \<open>migration/transfer.py\<close>. The options are \<open>{dryRun: bool, verbose: bool}\<close>;
  \<open>verbose\<close> changes what is printed, not what is transferred. A \<open>SourceReadFault\<close> is
  ``fatal, aborts the transfer run'', and so is a \<open>DestinationWriteFault\<close> ``due to
  connectivity loss''; each names the table at which the run stopped. The legacy store
  answers a table name with the rows of the table, or fails to. The events are the start
  and the completion of a unit, an insert issued against the destination store, and the
  writing of the report artifact.
\<close>

record options =
  dryRun :: bool
  verbose :: bool

datatype fault = SourceReadFault string | DestinationWriteFault string

type_synonym legacy_store = "string \<Rightarrow> row list option"

datatype event =
  UnitStarted string
| InsertAttempted string TransferRecord
| UnitCompleted string
| ReportWritten

text \<open>
  Modelled from the spec: the state of a run of \<open>migration/transfer.py\<close>: the destination
  store, the report so far and the events so far. A dry run writes nothing, and its
  report ``reflects what would happen''; so it keeps aside, per destination table, the
  rows it would have inserted (\<open>pending\<close>).
\<close>

record RunState =
  destination :: Destination
  pending :: "string \<Rightarrow> row list"
  report :: TransferReport
  trace :: "event list"

text \<open>
  Modelled from the spec: the rows a dry run of \<open>migration/transfer.py\<close> validates
  against: those of the destination store, followed by the ones it would have inserted
  so far.
\<close>

definition visible :: "RunState \<Rightarrow> string \<Rightarrow> row list" where
  "visible s t = tables (destination s) t @ pending s t"

text \<open>
  Modelled from the spec: when the destination store of \<open>migration/transfer.py\<close> refuses
  a row, given the rows to check against. ``Attempting to insert a row whose foreign key
  target has not yet been transferred is a warning, not a fatal error: the row is still
  inserted if the destination store accepts nullable/deferred foreign keys, otherwise it
  is rejected and counted.'' A violated uniqueness constraint is a per-row
  \<open>DestinationWriteFault\<close>, ``recorded as rejection''. Nothing else refuses a row: there is
  ``no natural-key deduplication''.
\<close>

definition refused ::
  "Destination \<Rightarrow> (string \<Rightarrow> row list) \<Rightarrow> TransferUnit \<Rightarrow> TableMapping \<Rightarrow> TransferRecord \<Rightarrow> bool" where
  "refused d rows_of u tm rec =
     ((fk_target_missing rows_of tm (payload rec) \<and> \<not> deferred_foreign_keys d) \<or>
      (enforces_unique d (destination_table u) \<and>
       key_present rows_of (destination_table u) (primary_key tm) (natural_key rec)))"

text \<open>
  Modelled from the spec: the outcomes of the write step of \<open>migration/transfer.py\<close>: the
  row was inserted, it was refused for a constraint violation, or the connection to the
  destination store was lost.
\<close>

datatype write_outcome = Inserted | ConstraintViolation | ConnectivityLost

text \<open>
  Modelled from the spec: the write step of the Transfer Engine of
  \<open>migration/transfer.py\<close>, a ``straightforward insert''. When the connection is lost the
  store is not changed. Otherwise the write is answered: it is refused, or the row is
  appended to the destination table.
\<close>

definition write_row ::
  "Destination \<Rightarrow> TransferUnit \<Rightarrow> TableMapping \<Rightarrow> TransferRecord \<Rightarrow> write_outcome \<times> Destination" where
  "write_row d u tm rec =
     (if writes_before_outage d = Some 0 then (ConnectivityLost, d)
      else
        (let t = destination_table u;
             d1 = d\<lparr>writes_before_outage := map_option (\<lambda>n. n - 1) (writes_before_outage d)\<rparr>
         in if refused d (tables d) u tm rec then (ConstraintViolation, d1)
            else (Inserted, d1\<lparr>tables := (tables d)(t := tables d t @ [payload rec])\<rparr>)))"

text \<open>
  Modelled from the spec: what the Transfer Engine of \<open>migration/transfer.py\<close> does with
  one source row. The row is mapped and validated. ``A rejected record is never passed
  to the write step''; it is counted as a rejection. ``\<open>dryRun=true\<close> performs every
  read/map/validate step but issues no writes'': a dry run counts the warning and the
  rejection that the write step would give, checking against the rows it can see, and
  keeps the row aside when it would be inserted; its report follows the scenario
  ``\<open>parts: inserted=0 (dry-run), warned=1, rejected=0\<close>''. Otherwise the record is passed to
  the write step, once (``no retry of an individual record within a run''), and the
  outcome is counted; a warned row that is inserted counts as both (``\<open>inserted=3,
  warned=1\<close>''). A lost connection ``stops the run immediately with a partial report''.
\<close>

definition transfer_row ::
  "schema \<Rightarrow> options \<Rightarrow> int \<Rightarrow> TransferUnit \<Rightarrow> RunState \<Rightarrow> row \<Rightarrow> fault option \<times> RunState" where
  "transfer_row sch opts now u s r =
     (let t = table_name u;
          tm = sch t;
          rec = map_row tm now r
      in if status rec = Rejected then (None, s\<lparr>report := count_rejected t (report s)\<rparr>)
         else if dryRun opts then
           (let w = fk_target_missing (visible s) tm (payload rec);
                rep = count_warned (status rec = Warned \<or> w) t (report s)
            in if refused (destination s) (visible s) u tm rec
               then (None, s\<lparr>report := count_rejected t rep\<rparr>)
               else (None, s\<lparr>pending := (pending s)(destination_table u :=
                                 pending s (destination_table u) @ [payload rec]),
                              report := rep\<rparr>))
         else
           (let w = fk_target_missing (tables (destination s)) tm (payload rec);
                rep = count_warned (status rec = Warned \<or> w) t (report s);
                s1 = s\<lparr>trace := trace s @ [InsertAttempted t rec]\<rparr>
            in case write_row (destination s) u tm rec of
                 (ConnectivityLost, d') \<Rightarrow> (Some (DestinationWriteFault t), s1)
               | (ConstraintViolation, d') \<Rightarrow>
                   (None, s1\<lparr>destination := d', report := count_rejected t rep\<rparr>)
               | (Inserted, d') \<Rightarrow>
                   (None, s1\<lparr>destination := d', report := count_inserted t rep\<rparr>)))"

text \<open>
  Modelled from the spec: the rows of one table of \<open>migration/transfer.py\<close>, transferred
  one after the other in the order read, up to the first fatal fault.
\<close>

fun transfer_rows ::
  "schema \<Rightarrow> options \<Rightarrow> int \<Rightarrow> TransferUnit \<Rightarrow> row list \<Rightarrow> RunState \<Rightarrow>
     fault option \<times> RunState" where
  "transfer_rows sch opts now u [] s = (None, s)"
| "transfer_rows sch opts now u (r # rs) s =
     (case transfer_row sch opts now u s r of
        (Some f, s') \<Rightarrow> (Some f, s')
      | (None, s') \<Rightarrow> transfer_rows sch opts now u rs s')"

text \<open>
  Modelled from the spec: one TransferUnit of \<open>migration/transfer.py\<close>, run on the rows
  the Legacy Store Reader returned for its table: it starts, transfers the rows, and
  completes (``success or partial-success'') unless a fatal fault stops the run.
\<close>

definition transfer_unit ::
  "schema \<Rightarrow> options \<Rightarrow> int \<Rightarrow> TransferUnit \<Rightarrow> row list \<Rightarrow> RunState \<Rightarrow>
     fault option \<times> RunState" where
  "transfer_unit sch opts now u rows s =
     (case transfer_rows sch opts now u rows
             (s\<lparr>trace := trace s @ [UnitStarted (table_name u)]\<rparr>) of
        (Some f, s') \<Rightarrow> (Some f, s')
      | (None, s') \<Rightarrow> (None, s'\<lparr>trace := trace s' @ [UnitCompleted (table_name u)]\<rparr>))"

text \<open>
  Modelled from the spec: the loop of the Transfer Engine of \<open>migration/transfer.py\<close> over
  the units, ``a single sequential batch job, intentionally not parallelized across
  tables''. The Legacy Store Reader reads ``one table at a time''; a fatal fault ``stops
  the run immediately with a partial report''.
\<close>

fun transfer_units ::
  "schema \<Rightarrow> options \<Rightarrow> int \<Rightarrow> legacy_store \<Rightarrow> TransferUnit list \<Rightarrow> RunState \<Rightarrow>
     fault option \<times> RunState" where
  "transfer_units sch opts now src [] s = (None, s)"
| "transfer_units sch opts now src (u # us) s =
     (case src (table_name u) of
        None \<Rightarrow> (Some (SourceReadFault (table_name u)), s)
      | Some rows \<Rightarrow>
          (case transfer_unit sch opts now u rows s of
             (Some f, s') \<Rightarrow> (Some f, s')
           | (None, s') \<Rightarrow> transfer_units sch opts now src us s'))"

text \<open>
  Modelled from the spec: a TransferUnit of \<open>migration/transfer.py\<close> for a table that is
  transferred to the destination table of the same name (docs/DOMAIN.md: ``the legacy
  schema has been ported to PostgreSQL'').
\<close>

definition unit_of :: "string \<Rightarrow> string list \<Rightarrow> TransferUnit" where
  "unit_of t ps = \<lparr>table_name = t, destination_table = t, predecessors = ps\<rparr>"

text \<open>
  Modelled from the spec: the fixed table order of \<open>migration/transfer.py\<close>, ``categories
  \<rightarrow> parts/equipment \<rightarrow> analog groups \<rightarrow> counterparties \<rightarrow> orders/order_items \<rightarrow>
  tasks/task_parts \<rightarrow> knife tracking/logs \<rightarrow> settings'', with the table names of
  docs/DOMAIN.md. The dependency predecessors are the ones the specification gives
  (``categories before parts, parts before equipment_parts, counterparties before
  orders'') and the other one-to-many relationships of docs/DOMAIN.md between these
  tables.
\<close>

definition transfer_order :: "TransferUnit list" where
  "transfer_order =
     [unit_of ''part_categories'' [],
      unit_of ''equipment_categories'' [],
      unit_of ''parts'' [''part_categories''],
      unit_of ''equipment'' [''equipment_categories''],
      unit_of ''equipment_parts'' [''parts'', ''equipment''],
      unit_of ''part_analog_groups'' [],
      unit_of ''counterparties'' [],
      unit_of ''orders'' [''counterparties''],
      unit_of ''order_items'' [''orders'', ''parts''],
      unit_of ''tasks'' [],
      unit_of ''task_parts'' [''tasks'', ''parts''],
      unit_of ''knife_tracking'' [''parts''],
      unit_of ''knife_status_log'' [''knife_tracking''],
      unit_of ''knife_sharpen_log'' [''knife_tracking''],
      unit_of ''app_settings'' []]"

text \<open>
  Modelled from the spec: what ``dependency-respecting'' asks of a table order of
  \<open>migration/transfer.py\<close>: going through the order with the tables completed so far,
  every unit has all its predecessors among them and is not among them itself.
\<close>

fun respects_from :: "string list \<Rightarrow> TransferUnit list \<Rightarrow> bool" where
  "respects_from completed [] = True"
| "respects_from completed (u # us) =
     (list_all (\<lambda>p. p \<in> set completed) (predecessors u) \<and>
      table_name u \<notin> set completed \<and>
      respects_from (table_name u # completed) us)"

text \<open>
  Modelled from the spec: a table order of \<open>migration/transfer.py\<close> is
  ``dependency-respecting'' when it is so from the start, with no table completed.
\<close>

definition dependency_respecting :: "TransferUnit list \<Rightarrow> bool" where
  "dependency_respecting plan = respects_from [] plan"

text \<open>
  Modelled from the spec: the Transfer Engine of \<open>migration/transfer.py\<close>,
  \<open>run(sourceHandle, destinationHandle, options) -> TransferReport\<close>, over a table order
  \<open>plan\<close>. Besides the report the model returns the fault that aborted the run, if any,
  the destination store afterwards and the events of the run; what a dry run kept aside
  is dropped. The report artifact is
  written ``exactly once, after all tables are processed (or the run is aborted)''.
\<close>

definition transfer ::
  "schema \<Rightarrow> TransferUnit list \<Rightarrow> int \<Rightarrow> legacy_store \<Rightarrow> Destination \<Rightarrow> options \<Rightarrow>
     fault option \<times> TransferReport \<times> Destination \<times> event list" where
  "transfer sch plan now src dest opts =
     (case transfer_units sch opts now src plan
             \<lparr>destination = dest, pending = (\<lambda>t. []), report = empty_report, trace = []\<rparr> of
        (f, s) \<Rightarrow> (f, report s, destination s, trace s @ [ReportWritten]))"

text \<open>
  Modelled from the spec: \<open>run\<close> of \<open>migration/transfer.py\<close> itself: the Transfer Engine
  on the fixed table order.
\<close>

definition run ::
  "schema \<Rightarrow> int \<Rightarrow> legacy_store \<Rightarrow> Destination \<Rightarrow> options \<Rightarrow>
     fault option \<times> TransferReport \<times> Destination \<times> event list" where
  "run sch now src dest opts = transfer sch transfer_order now src dest opts"

text \<open>
  Modelled from the spec: the mapping rules for the scenario of the specification for
  \<open>migration/transfer.py\<close>, ``legacy store has 3 parts rows, one with a null name'': in
  every table \<open>id\<close> is the primary key and \<open>name\<close> a required column.
\<close>

definition scenario_schema :: schema where
  "scenario_schema =
     (\<lambda>t. \<lparr>primary_key = ''id'', renames = [], required = [''name''], foreign_keys = []\<rparr>)"

text \<open>
  Modelled from the spec: the legacy store of the scenario for \<open>migration/transfer.py\<close>:
  three rows in \<open>parts\<close>, the second with a null name, and no rows in the other tables.
\<close>

definition scenario_store :: legacy_store where
  "scenario_store =
     (\<lambda>t. Some (if t = ''parts''
                 then [[(''id'', IntCell 1), (''name'', TextCell ''blade'')],
                       [(''id'', IntCell 2), (''name'', Null)],
                       [(''id'', IntCell 3), (''name'', TextCell ''belt'')]]
                 else []))"

text \<open>
  Modelled from the spec: an empty destination store for \<open>migration/transfer.py\<close> without
  uniqueness constraints, which accepts deferred foreign keys and stays connected.
\<close>

definition empty_destination :: Destination where
  "empty_destination =
     \<lparr>tables = (\<lambda>t. []), enforces_unique = (\<lambda>t. False), deferred_foreign_keys = True,
      writes_before_outage = None\<rparr>"

text \<open>
  Modelled from the spec: an empty destination store for \<open>migration/transfer.py\<close> that
  ``enforces uniqueness constraints'' on the key of every table, accepts deferred foreign
  keys and stays connected.
\<close>

definition constrained_destination :: Destination where
  "constrained_destination =
     \<lparr>tables = (\<lambda>t. []), enforces_unique = (\<lambda>t. True), deferred_foreign_keys = True,
      writes_before_outage = None\<rparr>"

text \<open>
  Modelled from the spec: an empty destination store for \<open>migration/transfer.py\<close> to which
  the connection is lost before the first write.
\<close>

definition unreachable_destination :: Destination where
  "unreachable_destination =
     \<lparr>tables = (\<lambda>t. []), enforces_unique = (\<lambda>t. False), deferred_foreign_keys = True,
      writes_before_outage = Some 0\<rparr>"

text \<open>
  Modelled from the spec: an empty destination store for \<open>migration/transfer.py\<close> that
  enforces uniqueness on every table and does not accept deferred foreign keys, so that
  a row whose foreign key target is missing ``is rejected and counted''.
\<close>

definition strict_destination :: Destination where
  "strict_destination =
     \<lparr>tables = (\<lambda>t. []), enforces_unique = (\<lambda>t. True), deferred_foreign_keys = False,
      writes_before_outage = None\<rparr>"

text \<open>
  Modelled from the spec: mapping rules for \<open>migration/transfer.py\<close> in which a part
  refers to its analog group (docs/DOMAIN.md: parts have an ``optional analog group''),
  a table that the fixed order transfers after \<open>parts\<close>.
\<close>

definition linked_schema :: schema where
  "linked_schema =
     (\<lambda>t. \<lparr>primary_key = ''id'', renames = [], required = [],
           foreign_keys = (if t = ''parts''
                           then [(''analog_group_id'', ''part_analog_groups'', ''id'')]
                           else [])\<rparr>)"

text \<open>
  Modelled from the spec: a legacy store for \<open>migration/transfer.py\<close> with one analog
  group and one part that refers to it.
\<close>

definition linked_store :: legacy_store where
  "linked_store =
     (\<lambda>t. Some (if t = ''parts''
                 then [[(''id'', IntCell 1), (''analog_group_id'', IntCell 7)]]
                 else if t = ''part_analog_groups''
                 then [[(''id'', IntCell 7)]]
                 else []))"

section \<open>Realtime notifications: the Change Notification Broadcaster (backend)\<close>

text \<open>
  The README places the WebSocket endpoint for realtime updates in \<open>backend/\<close>, and
  docs/API_EXAMPLES.md describes the channel; the backend is not among the sources.
  Every definition of this section is modelled from the specification of the
  Broadcaster.
\<close>

text \<open>
  Modelled from the spec: the ChangeEvent of the backend's broadcaster, ``entity kind
  (enumerated: part | order | task), entity identifier, operation (created | updated |
  deleted), timestamp''.
\<close>

datatype entity_kind = PartKind | OrderKind | TaskKind

datatype operation = Created | Updated | Deleted

record ChangeEvent =
  entityKind :: entity_kind
  entityId :: int
  operation :: operation
  timestamp :: int

text \<open>
  Modelled from the spec: the connection handed to the backend's broadcaster and its
  Subscriber, ``one live real-time connection. Attributes: connection handle,
  authenticated principal, subscribed-since timestamp''. A connection carries the
  principal its credential was validated for, if it was.
\<close>

record Connection =
  connection_id :: nat
  authenticated :: "string option"

record Subscriber =
  connection_handle :: nat
  principal :: string
  subscribed_since :: int

text \<open>
  Modelled from the spec: the subscriber registry of the backend's broadcaster. It holds
  the subscribers under their subscription handles, in registration order, and the next
  handle to give out. All operations on it are mutually exclusive, so each is one step.
\<close>

record Registry =
  subscribers :: "(nat \<times> Subscriber) list"
  next_handle :: nat

text \<open>
  Modelled from the spec: the registry of the backend's broadcaster when the process
  starts, without subscribers.
\<close>

definition empty_registry :: Registry where
  "empty_registry = \<lparr>subscribers = [], next_handle = 0\<rparr>"

text \<open>
  Modelled from the spec: \<open>subscribe(connection) -> SubscriptionHandle\<close> of the backend's
  broadcaster. ``\<open>subscribe\<close> requires a previously authenticated connection; an
  unauthenticated or expired credential causes the handshake to fail before a Subscriber
  is ever created.''
\<close>

definition subscribe :: "Connection \<Rightarrow> int \<Rightarrow> Registry \<Rightarrow> nat option \<times> Registry" where
  "subscribe c now reg =
     (case authenticated c of
        None \<Rightarrow> (None, reg)
      | Some p \<Rightarrow>
          (Some (next_handle reg),
           \<lparr>subscribers = subscribers reg @
              [(next_handle reg,
                \<lparr>connection_handle = connection_id c, principal = p, subscribed_since = now\<rparr>)],
            next_handle = Suc (next_handle reg)\<rparr>))"

text \<open>
  Modelled from the spec: \<open>unsubscribe(handle) -> void\<close> of the backend's broadcaster.
\<close>

definition unsubscribe :: "nat \<Rightarrow> Registry \<Rightarrow> Registry" where
  "unsubscribe h reg = reg\<lparr>subscribers := filter (\<lambda>(h', s). h' \<noteq> h) (subscribers reg)\<rparr>"

text \<open>
  Modelled from the spec: the outcome of one delivery of the backend's broadcaster: the
  event was delivered to the subscriber, or the delivery failed
  (\<open>SubscriberDeliveryFault\<close>, ``isolated to one subscriber, removes it, never
  propagates'').
\<close>

datatype delivery = Delivered nat ChangeEvent | DeliveryFault nat

text \<open>
  Modelled from the spec: the subscriber a delivery of the backend's broadcaster was
  attempted to, by its subscription handle.
\<close>

fun target :: "delivery \<Rightarrow> nat" where
  "target (Delivered h ev) = h"
| "target (DeliveryFault h) = h"

text \<open>
  Modelled from the spec: the delivery loop of \<open>publish\<close> of the backend's broadcaster
  over the subscribers registered at the time of the call. ``\<open>publish\<close> delivers the event to every currently registered Subscriber at
  the time of the call''; ``delivery to one subscriber failing (connection already closed)
  must not prevent delivery to the remaining subscribers; the failing subscriber is
  removed from the registry''. Whether a write to a connection succeeds at the time of
  the call (it fails on a closed connection and when it times out) is the parameter
  \<open>writable\<close>. The result is the registry afterwards and the
  deliveries attempted, in order.
\<close>

fun deliver ::
  "ChangeEvent \<Rightarrow> (nat \<Rightarrow> bool) \<Rightarrow> (nat \<times> Subscriber) list \<Rightarrow> Registry \<Rightarrow>
     Registry \<times> delivery list" where
  "deliver ev writable [] reg = (reg, [])"
| "deliver ev writable ((h, s) # rest) reg =
     (if writable (connection_handle s)
      then (case deliver ev writable rest reg of
              (reg', ds) \<Rightarrow> (reg', Delivered h ev # ds))
      else (case deliver ev writable rest (unsubscribe h reg) of
              (reg', ds) \<Rightarrow> (reg', DeliveryFault h # ds)))"

text \<open>
  Modelled from the spec: \<open>publish(event: ChangeEvent) -> void\<close> of the backend's
  broadcaster: the delivery loop over the subscribers of the registry.
\<close>

definition publish :: "ChangeEvent \<Rightarrow> (nat \<Rightarrow> bool) \<Rightarrow> Registry \<Rightarrow> Registry \<times> delivery list" where
  "publish ev writable reg = deliver ev writable (subscribers reg) reg"

text \<open>
  Modelled from the spec: the calls the rest of the backend makes on its broadcaster:
  \<open>publish\<close> (with the connections that can be written to at that time), \<open>subscribe\<close>
  and \<open>unsubscribe\<close>.
\<close>

datatype call =
  Publish ChangeEvent "nat \<Rightarrow> bool"
| Subscribe Connection int
| Unsubscribe nat

text \<open>
  Modelled from the spec: a sequence of calls on the backend's broadcaster, run from a
  registry; the result is the registry afterwards and all the deliveries attempted.
\<close>

fun calls :: "call list \<Rightarrow> Registry \<Rightarrow> Registry \<times> delivery list" where
  "calls [] reg = (reg, [])"
| "calls (Publish ev writable # cs) reg =
     (case publish ev writable reg of
        (reg1, ds) \<Rightarrow> (case calls cs reg1 of (reg2, ds') \<Rightarrow> (reg2, ds @ ds')))"
| "calls (Subscribe c now # cs) reg = calls cs (snd (subscribe c now reg))"
| "calls (Unsubscribe h # cs) reg = calls cs (unsubscribe h reg)"

text \<open>
  Modelled from the spec: the registries of the backend's broadcaster that the calls can
  produce from the empty one: the handles in use are distinct and below the next handle.
\<close>

definition well_formed :: "Registry \<Rightarrow> bool" where
  "well_formed reg =
     (distinct (map fst (subscribers reg)) \<and>
      list_all (\<lambda>(h, s). h < next_handle reg) (subscribers reg))"

section \<open>Auxiliary notions\<close>

text \<open>
  The handles of the subscribers of a list whose connection cannot be written to: the
  ones a publish removes.
\<close>

definition failing :: "(nat \<Rightarrow> bool) \<Rightarrow> (nat \<times> Subscriber) list \<Rightarrow> nat list" where
  "failing writable rest = map fst (filter (\<lambda>(h, s). \<not> writable (connection_handle s)) rest)"

text \<open>
  The records the Row Mapper produces for the rows of a unit, the ones among them that
  are not rejected, and the events of a unit and of a run as they follow from the rows
  read: the inserts of a unit are issued for its records that are not rejected, in
  order, unless the run is a dry run.
\<close>

definition records :: "schema \<Rightarrow> int \<Rightarrow> TransferUnit \<Rightarrow> row list \<Rightarrow> TransferRecord list" where
  "records sch now u rows = map (map_row (sch (table_name u)) now) rows"

definition accepted :: "schema \<Rightarrow> int \<Rightarrow> TransferUnit \<Rightarrow> row list \<Rightarrow> TransferRecord list" where
  "accepted sch now u rows = filter (\<lambda>rec. status rec \<noteq> Rejected) (records sch now u rows)"

definition attempts :: "schema \<Rightarrow> options \<Rightarrow> int \<Rightarrow> TransferUnit \<Rightarrow> row list \<Rightarrow> event list" where
  "attempts sch opts now u rows =
     (if dryRun opts then []
      else map (InsertAttempted (table_name u)) (accepted sch now u rows))"

definition unit_events :: "schema \<Rightarrow> options \<Rightarrow> int \<Rightarrow> TransferUnit \<Rightarrow> row list \<Rightarrow> event list" where
  "unit_events sch opts now u rows =
     UnitStarted (table_name u) # attempts sch opts now u rows @ [UnitCompleted (table_name u)]"

fun run_events ::
  "schema \<Rightarrow> options \<Rightarrow> int \<Rightarrow> legacy_store \<Rightarrow> TransferUnit list \<Rightarrow> event list" where
  "run_events sch opts now src [] = []"
| "run_events sch opts now src (u # us) =
     (case src (table_name u) of
        None \<Rightarrow> []
      | Some rows \<Rightarrow> unit_events sch opts now u rows @ run_events sch opts now src us)"

text \<open>The table an event belongs to.\<close>

fun event_table :: "event \<Rightarrow> string option" where
  "event_table (UnitStarted t) = Some t"
| "event_table (InsertAttempted t rec) = Some t"
| "event_table (UnitCompleted t) = Some t"
| "event_table ReportWritten = None"












section \<open>Properties of the web client\<close>

subsection \<open>The routing table\<close>

text \<open>
  C7. The routing table has a single top-level route, the application layout at \<open>/\<close>,
  and exactly three page routes, all of them its children: the dashboard as the index
  route, the parts page at \<open>parts\<close> and the tasks page at \<open>tasks\<close>.
\<close>

theorem router_three_pages:
  "\<exists>layout. router = [layout] \<and> path layout = Some ''/'' \<and> \<not> index layout \<and>
     element layout = AppLayout \<and>
     children layout =
       [Route None True DashboardPage [],
        Route (Some ''parts'') False PartsPage [],
        Route (Some ''tasks'') False TasksPage []] \<and>
     pages_of router = children layout \<and> length (pages_of router) = 3"
  by (simp add: router_def pages_of_def)

text \<open>
  C8. A paginated response, as the client types it, is determined by exactly the four
  fields \<open>items\<close>, \<open>total\<close>, \<open>page\<close> and \<open>page_size\<close>: two responses are equal
  if and only if they agree on these four.
\<close>

theorem PaginatedResponse_four_fields:
  fixes r r' :: "'a PaginatedResponse"
  shows "(r = r') =
     (items r = items r' \<and> total_resp r = total_resp r' \<and> page r = page r' \<and>
      page_size r = page_size r')"
  by (cases r, cases r') auto

subsection \<open>The parts query\<close>

lemma PartsPage_requests_set:
  "set (PartsPage_requests axios_get n) = {parts_request}"
  by (induction n) (simp_all add: useParts_queryFn_def)

text \<open>
  C9. Whatever the HTTP client answers, one run of the parts query issues exactly one
  request, \<open>GET /api/parts\<close> with \<open>page = 1\<close> and \<open>page_size = 50\<close>, and returns the
  answer to it; every request of the parts page, the first load and any number of
  refetches, is that same request, so no later page is ever asked for. Against a server
  that honours pagination the client therefore receives the first 50 parts at most,
  whatever total the server reports.
\<close>

theorem useParts_first_page_only:
  fixes axios_get :: "('e, Part) http_get"
  shows "snd (useParts_queryFn axios_get) =
       [\<lparr>url = ''/api/parts'', params = [(''page'', 1), (''page_size'', 50)]\<rparr>] \<and>
     fst (useParts_queryFn axios_get) =
       axios_get \<lparr>url = ''/api/parts'', params = [(''page'', 1), (''page_size'', 50)]\<rparr> \<and>
     set (PartsPage_requests axios_get n) =
       {\<lparr>url = ''/api/parts'', params = [(''page'', 1), (''page_size'', 50)]\<rparr>} \<and>
     (\<exists>resp. fst (useParts_queryFn (paginating_server catalogue :: ('e, Part) http_get)) = Inr resp \<and>
        items resp = take 50 catalogue \<and> length (items resp) \<le> 50 \<and>
        total_resp resp = int (length catalogue))"
proof -
  have 1: "param parts_request ''page'' = 1" "param parts_request ''page_size'' = 50"
    by (simp_all add: param_def parts_request_def)
  have 2: "fst (useParts_queryFn (paginating_server catalogue :: ('e, Part) http_get)) =
      Inr \<lparr>items = take 50 catalogue, total_resp = int (length catalogue), page = 1, page_size = 50\<rparr>"
    by (simp add: useParts_queryFn_def paginating_server_def 1)
  have 3: "set (PartsPage_requests axios_get n) = {parts_request}"
    by (rule PartsPage_requests_set)
  show ?thesis
    unfolding 2 using 3 by (simp add: useParts_queryFn_def parts_request_def)
qed

subsection \<open>The service worker\<close>

lemma cache_of_caches_open: "cache_of (caches_open n cs) m = cache_of cs m"
proof (cases "n \<in> fst ` set cs")
  case True
  then show ?thesis by (simp add: caches_open_def)
next
  case False
  then have "map_of cs n = None"
    by (simp add: map_of_eq_None_iff)
  with False show ?thesis
    by (simp add: caches_open_def cache_of_def map_add_def split: option.splits)
qed

lemma map_of_caches_open_other: "m \<noteq> n \<Longrightarrow> map_of (caches_open n cs) m = map_of cs m"
  by (simp add: caches_open_def map_add_def split: option.splits)

lemma caches_open_has_cache: "n \<in> fst ` set (caches_open n cs)"
  by (simp add: caches_open_def)

lemma cache_of_update: "cache_of (AList.update n c cs) m = (if m = n then c else cache_of cs m)"
  by (simp add: cache_of_def update_conv')

lemma manifest_is_not_root:
  "\<not> request_matches_cached_item (get_request ''/manifest.webmanifest'') (get_request ''/'', r)"
  by (simp add: request_matches_cached_item_def get_request_def exclude_fragment_def)

lemma cache_addAll_two_assets:
  "cache_addAll net [''/'', ''/manifest.webmanifest''] c =
     (case net (get_request ''/'') of
        None \<Rightarrow> None
      | Some ra \<Rightarrow>
          (case net (get_request ''/manifest.webmanifest'') of
             None \<Rightarrow> None
           | Some rb \<Rightarrow>
               if cacheable ra \<and> cacheable rb
               then Some (filter (\<lambda>item.
                      \<not> request_matches_cached_item (get_request ''/'') item \<and>
                      \<not> request_matches_cached_item (get_request ''/manifest.webmanifest'') item) c @
                    [(get_request ''/'', ra), (get_request ''/manifest.webmanifest'', rb)])
               else None))"
  by (auto simp: cache_addAll_def manifest_is_not_root conj_commute split: option.splits)

text \<open>
  C6. On install the service worker opens the cache \<open>static-v1\<close> and sends exactly two
  requests to the network, a GET of \<open>/\<close> and a GET of \<open>/manifest.webmanifest\<close>. The
  install succeeds exactly when both are answered by a response that \<open>cache.addAll\<close>
  accepts; then \<open>static-v1\<close> is what it was, without the items the two requests match,
  followed by exactly these two requests with their responses. Otherwise nothing is
  written to \<open>static-v1\<close>. No other cache changes.
\<close>

theorem install_listener_caches_two_assets:
  assumes "install_listener net cs = (cs', ok, requested)"
  shows "requested = [get_request ''/'', get_request ''/manifest.webmanifest''] \<and>
    (ok \<longleftrightarrow>
       (\<exists>ra rb. net (get_request ''/'') = Some ra \<and>
          net (get_request ''/manifest.webmanifest'') = Some rb \<and>
          cacheable ra \<and> cacheable rb)) \<and>
    ''static-v1'' \<in> fst ` set cs' \<and>
    (ok \<longrightarrow>
       (\<exists>ra rb. net (get_request ''/'') = Some ra \<and>
          net (get_request ''/manifest.webmanifest'') = Some rb \<and>
          cache_of cs' ''static-v1'' =
            filter (\<lambda>item.
                \<not> request_matches_cached_item (get_request ''/'') item \<and>
                \<not> request_matches_cached_item (get_request ''/manifest.webmanifest'') item)
              (cache_of cs ''static-v1'') @
            [(get_request ''/'', ra), (get_request ''/manifest.webmanifest'', rb)])) \<and>
    (\<not> ok \<longrightarrow> cache_of cs' ''static-v1'' = cache_of cs ''static-v1'') \<and>
    (\<forall>n. n \<noteq> ''static-v1'' \<longrightarrow> map_of cs' n = map_of cs n)"
proof -
  let ?s = "''static-v1''"
  let ?a = "get_request ''/''" and ?b = "get_request ''/manifest.webmanifest''"
  let ?cs1 = "caches_open ?s cs"
  let ?old = "cache_of cs ?s"
  have inst: "install_listener net cs =
      (case cache_addAll net [''/'', ''/manifest.webmanifest''] ?old of
         None \<Rightarrow> (?cs1, False, [?a, ?b])
       | Some c \<Rightarrow> (AList.update ?s c ?cs1, True, [?a, ?b]))"
    by (simp add: install_listener_def Let_def cache_of_caches_open split: option.splits)
  show ?thesis
  proof (cases "cache_addAll net [''/'', ''/manifest.webmanifest''] ?old")
    case None
    with inst assms have eq: "cs' = ?cs1" "ok = False" "requested = [?a, ?b]"
      by simp_all
    from None have "\<not> (\<exists>ra rb. net ?a = Some ra \<and> net ?b = Some rb \<and> cacheable ra \<and> cacheable rb)"
      by (auto simp: cache_addAll_two_assets split: option.splits if_splits)
    with eq show ?thesis
      by (simp add: cache_of_caches_open caches_open_has_cache map_of_caches_open_other)
  next
    case (Some c)
    with inst assms have eq: "cs' = AList.update ?s c ?cs1" "ok = True" "requested = [?a, ?b]"
      by simp_all
    from Some obtain ra rb where net: "net ?a = Some ra" "net ?b = Some rb"
      and acc: "cacheable ra" "cacheable rb"
      and c: "c = filter (\<lambda>item. \<not> request_matches_cached_item ?a item \<and>
                  \<not> request_matches_cached_item ?b item) ?old @ [(?a, ra), (?b, rb)]"
      by (auto simp: cache_addAll_two_assets split: option.splits if_splits)
    have o: "\<forall>n. n \<noteq> ?s \<longrightarrow> map_of cs' n = map_of cs n"
      unfolding eq by (simp add: update_conv' map_of_caches_open_other)
    have i: "?s \<in> fst ` set cs'"
      unfolding eq by (simp add: dom_update)
    have co: "cache_of cs' ?s = c"
      unfolding eq by (simp add: cache_of_update)
    from eq net acc o i c show ?thesis
      unfolding co by simp
  qed
qed

theorem install_listener_caches_two_assets_witness:
  "fst (snd (install_listener
     (\<lambda>q. Some \<lparr>response_status = 200, response_vary = [], response_body = request_url q\<rparr>)
     [])) \<and>
   cache_of (fst (install_listener
     (\<lambda>q. Some \<lparr>response_status = 200, response_vary = [], response_body = request_url q\<rparr>)
     [])) ''static-v1'' =
     [(get_request ''/'',
       \<lparr>response_status = 200, response_vary = [], response_body = ''/''\<rparr>),
      (get_request ''/manifest.webmanifest'',
       \<lparr>response_status = 200, response_vary = [],
        response_body = ''/manifest.webmanifest''\<rparr>)] \<and>
   \<not> fst (snd (install_listener
     (\<lambda>q. Some \<lparr>response_status = (if request_url q = ''/'' then 200 else 404),
                response_vary = [], response_body = request_url q\<rparr>) [])) \<and>
   cache_of (fst (install_listener
     (\<lambda>q. Some \<lparr>response_status = (if request_url q = ''/'' then 200 else 404),
                response_vary = [], response_body = request_url q\<rparr>) [])) ''static-v1'' = []"
proof -
  let ?net = "\<lambda>q. Some \<lparr>response_status = 200, response_vary = [], response_body = request_url q\<rparr>"
  let ?net404 = "\<lambda>q. Some \<lparr>response_status = (if request_url q = ''/'' then 200 else 404),
                response_vary = [], response_body = request_url q\<rparr>"
  let ?a = "get_request ''/''" and ?b = "get_request ''/manifest.webmanifest''"
  obtain cs' ok requested where run: "install_listener ?net [] = (cs', ok, requested)"
    by (cases "install_listener ?net []")
  have good: "\<exists>ra rb. ?net ?a = Some ra \<and> ?net ?b = Some rb \<and> cacheable ra \<and> cacheable rb"
    by (simp add: cacheable_def)
  from install_listener_caches_two_assets [OF run] good
  have ok: "ok"
    by blast
  from install_listener_caches_two_assets [OF run] ok
  obtain ra rb where "?net ?a = Some ra" "?net ?b = Some rb"
    and "cache_of cs' ''static-v1'' =
      filter (\<lambda>item. \<not> request_matches_cached_item ?a item \<and>
                \<not> request_matches_cached_item ?b item) (cache_of [] ''static-v1'') @
      [(?a, ra), (?b, rb)]"
    by blast
  then have content: "cache_of cs' ''static-v1'' =
      [(?a, \<lparr>response_status = 200, response_vary = [], response_body = ''/''\<rparr>),
       (?b, \<lparr>response_status = 200, response_vary = [],
             response_body = ''/manifest.webmanifest''\<rparr>)]"
    by (auto simp: cache_of_def get_request_def)
  obtain ds' bad sent where run404: "install_listener ?net404 [] = (ds', bad, sent)"
    by (cases "install_listener ?net404 []")
  have refused: "\<not> (\<exists>ra rb. ?net404 ?a = Some ra \<and> ?net404 ?b = Some rb \<and>
      cacheable ra \<and> cacheable rb)"
    by (simp add: cacheable_def get_request_def)
  from install_listener_caches_two_assets [OF run404] refused
  have bad: "\<not> bad"
    by blast
  with install_listener_caches_two_assets [OF run404]
  have "cache_of ds' ''static-v1'' = cache_of [] ''static-v1''"
    by blast
  then have empty: "cache_of ds' ''static-v1'' = []"
    by (simp add: cache_of_def)
  from ok content bad empty show ?thesis
    unfolding run run404 by simp
qed

lemma cache_match_None:
  "(cache_match query c = None) = (\<forall>item \<in> set c. \<not> request_matches_cached_item query item)"
proof (cases "filter (request_matches_cached_item query) c")
  case Nil
  then show ?thesis
    by (simp add: cache_match_def filter_empty_conv)
next
  case (Cons item rest)
  then have "item \<in> set (filter (request_matches_cached_item query) c)"
    by simp
  then have "\<exists>item \<in> set c. request_matches_cached_item query item"
    by auto
  with Cons show ?thesis
    by (simp add: cache_match_def)
qed

lemma cache_match_Some:
  "cache_match query c = Some r \<Longrightarrow>
     \<exists>q. (q, r) \<in> set c \<and> request_matches_cached_item query (q, r)"
proof -
  assume "cache_match query c = Some r"
  then obtain item rest where f: "filter (request_matches_cached_item query) c = item # rest"
    and r: "r = snd item"
    by (auto simp: cache_match_def split: list.splits)
  from f have "item \<in> set (filter (request_matches_cached_item query) c)"
    by simp
  then have "item \<in> set c" "request_matches_cached_item query item"
    by simp_all
  with r show ?thesis
    by (cases item) auto
qed

lemma caches_match_None:
  "(caches_match query cs = None) =
     (\<forall>(n, c) \<in> set cs. \<forall>item \<in> set c. \<not> request_matches_cached_item query item)"
proof (induction cs)
  case Nil
  then show ?case by simp
next
  case (Cons a cs)
  obtain n c where a: "a = (n, c)" by (cases a)
  show ?case
  proof (cases "cache_match query c")
    case None
    with Cons.IH a show ?thesis
      using cache_match_None [of query c] by simp
  next
    case (Some r)
    then have "\<not> (\<forall>item \<in> set c. \<not> request_matches_cached_item query item)"
      using cache_match_None [of query c] by simp
    with Some a show ?thesis by simp
  qed
qed

lemma caches_match_Some:
  "caches_match query cs = Some r \<Longrightarrow>
     \<exists>n c q. (n, c) \<in> set cs \<and> (q, r) \<in> set c \<and> request_matches_cached_item query (q, r)"
proof (induction cs)
  case Nil
  then show ?case by simp
next
  case (Cons a cs)
  obtain n c where a: "a = (n, c)" by (cases a)
  show ?case
  proof (cases "cache_match query c")
    case None
    with Cons a obtain n' c' q where "(n', c') \<in> set cs" "(q, r) \<in> set c'"
      "request_matches_cached_item query (q, r)"
      by auto
    then have "(n', c') \<in> set (a # cs)" by simp
    with \<open>(q, r) \<in> set c'\<close> \<open>request_matches_cached_item query (q, r)\<close> show ?thesis
      by blast
  next
    case (Some r')
    with Cons.prems a have "cache_match query c = Some r" by simp
    from cache_match_Some [OF this] obtain q where "(q, r) \<in> set c"
      "request_matches_cached_item query (q, r)"
      by blast
    moreover from a have "(n, c) \<in> set (a # cs)" by simp
    ultimately show ?thesis by blast
  qed
qed

text \<open>
  C10. The fetch listener is cache-first, for every request it is given. If some cache
  holds an item that the request matches, the listener answers with the response of
  such an item and sends nothing to the network; if no cache holds one, it answers with
  the network fetch of the original request.
\<close>

theorem fetch_listener_cache_first:
  "((\<exists>n c item. (n, c) \<in> set cs \<and> item \<in> set c \<and> request_matches_cached_item req item) \<longrightarrow>
      (\<exists>n c q r. (n, c) \<in> set cs \<and> (q, r) \<in> set c \<and>
         request_matches_cached_item req (q, r) \<and>
         fetch_listener net cs req = (Some r, []))) \<and>
   ((\<forall>(n, c) \<in> set cs. \<forall>item \<in> set c. \<not> request_matches_cached_item req item) \<longrightarrow>
      fetch_listener net cs req = (net req, [req]))"
proof (cases "caches_match req cs")
  case None
  then have no: "\<forall>(n, c) \<in> set cs. \<forall>item \<in> set c. \<not> request_matches_cached_item req item"
    by (simp add: caches_match_None)
  then have "\<not> (\<exists>n c item. (n, c) \<in> set cs \<and> item \<in> set c \<and>
      request_matches_cached_item req item)"
    by blast
  moreover from None have "fetch_listener net cs req = (net req, [req])"
    by (simp add: fetch_listener_def)
  ultimately show ?thesis
    by blast
next
  case (Some r)
  from caches_match_Some [OF Some] obtain n c q where hit: "(n, c) \<in> set cs" "(q, r) \<in> set c"
    "request_matches_cached_item req (q, r)"
    by blast
  moreover from Some have "fetch_listener net cs req = (Some r, [])"
    by (simp add: fetch_listener_def)
  moreover from hit
  have "\<not> (\<forall>(n, c) \<in> set cs. \<forall>item \<in> set c. \<not> request_matches_cached_item req item)"
    by blast
  ultimately show ?thesis
    by blast
qed

theorem fetch_listener_cache_first_witness:
  "fetch_listener
     (\<lambda>q. Some \<lparr>response_status = 200, response_vary = [], response_body = ''network''\<rparr>)
     [(''static-v1'',
       [(get_request ''/'',
         \<lparr>response_status = 200, response_vary = [], response_body = ''cached''\<rparr>)])]
     (get_request ''/#top'') =
     (Some \<lparr>response_status = 200, response_vary = [], response_body = ''cached''\<rparr>, []) \<and>
   fetch_listener
     (\<lambda>q. Some \<lparr>response_status = 200, response_vary = [], response_body = ''network''\<rparr>)
     [(''static-v1'',
       [(get_request ''/'',
         \<lparr>response_status = 200, response_vary = [], response_body = ''cached''\<rparr>)])]
     \<lparr>request_method = ''POST'', request_url = ''/'', request_headers = []\<rparr> =
     (Some \<lparr>response_status = 200, response_vary = [], response_body = ''network''\<rparr>,
      [\<lparr>request_method = ''POST'', request_url = ''/'', request_headers = []\<rparr>]) \<and>
   fetch_listener
     (\<lambda>q. Some \<lparr>response_status = 200, response_vary = [], response_body = ''network''\<rparr>)
     [(''static-v1'',
       [(get_request ''/'',
         \<lparr>response_status = 200, response_vary = [], response_body = ''cached''\<rparr>)])]
     (get_request ''/api/parts'') =
     (Some \<lparr>response_status = 200, response_vary = [], response_body = ''network''\<rparr>,
      [get_request ''/api/parts''])"
proof -
  let ?cached = "\<lparr>response_status = 200, response_vary = [], response_body = ''cached''\<rparr>"
  let ?cs = "[(''static-v1'', [(get_request ''/'', ?cached)])]"
  let ?net = "\<lambda>q::Request. Some \<lparr>response_status = 200, response_vary = [],
      response_body = ''network''\<rparr>"
  let ?post = "\<lparr>request_method = ''POST'', request_url = ''/'', request_headers = []\<rparr>"
  have m: "request_matches_cached_item (get_request ''/#top'') (get_request ''/'', ?cached)"
    by (simp add: request_matches_cached_item_def get_request_def exclude_fragment_def)
  then have hit: "\<exists>n c item. (n, c) \<in> set ?cs \<and> item \<in> set c \<and>
      request_matches_cached_item (get_request ''/#top'') item"
    by simp
  from fetch_listener_cache_first [of ?cs "get_request ''/#top''" ?net] hit
  have "\<exists>n c q r. (n, c) \<in> set ?cs \<and> (q, r) \<in> set c \<and>
      fetch_listener ?net ?cs (get_request ''/#top'') = (Some r, [])"
    by blast
  then have 1: "fetch_listener ?net ?cs (get_request ''/#top'') = (Some ?cached, [])"
    by auto
  have "\<not> request_matches_cached_item ?post (get_request ''/'', ?cached)"
    by (simp add: request_matches_cached_item_def)
  then have miss_post: "\<forall>(n, c) \<in> set ?cs. \<forall>item \<in> set c.
      \<not> request_matches_cached_item ?post item"
    by simp
  from fetch_listener_cache_first [of ?cs ?post ?net] miss_post
  have 2: "fetch_listener ?net ?cs ?post = (?net ?post, [?post])"
    by blast
  have "\<not> request_matches_cached_item (get_request ''/api/parts'') (get_request ''/'', ?cached)"
    by (simp add: request_matches_cached_item_def get_request_def exclude_fragment_def)
  then have miss_api: "\<forall>(n, c) \<in> set ?cs. \<forall>item \<in> set c.
      \<not> request_matches_cached_item (get_request ''/api/parts'') item"
    by simp
  from fetch_listener_cache_first [of ?cs "get_request ''/api/parts''" ?net] miss_api
  have 3: "fetch_listener ?net ?cs (get_request ''/api/parts'') =
      (?net (get_request ''/api/parts''), [get_request ''/api/parts''])"
    by blast
  from 1 2 3 show ?thesis by simp
qed

section \<open>Properties of the broadcaster\<close>

lemma fst_deliver_Cons:
  "fst (deliver ev writable ((h, s) # rest) reg) =
     (if writable (connection_handle s) then fst (deliver ev writable rest reg)
      else fst (deliver ev writable rest (unsubscribe h reg)))"
  by (simp add: case_prod_unfold)

lemma snd_deliver_Cons:
  "snd (deliver ev writable ((h, s) # rest) reg) =
     (if writable (connection_handle s) then Delivered h ev # snd (deliver ev writable rest reg)
      else DeliveryFault h # snd (deliver ev writable rest (unsubscribe h reg)))"
  by (simp add: case_prod_unfold)

lemma deliver_deliveries:
  "snd (deliver ev writable rest reg) =
     map (\<lambda>(h, s). if writable (connection_handle s) then Delivered h ev else DeliveryFault h) rest"
proof (induction rest arbitrary: reg)
  case Nil
  then show ?case by simp
next
  case (Cons a rest)
  obtain h s where a: "a = (h, s)" by (cases a)
  show ?case
    unfolding a snd_deliver_Cons by (simp add: Cons.IH)
qed

lemma unsubscribe_next_handle: "next_handle (unsubscribe h reg) = next_handle reg"
  by (simp add: unsubscribe_def)

lemma failing_Nil: "failing writable [] = []"
  by (simp add: failing_def)

lemma failing_Cons:
  "failing writable ((h, s) # rest) =
     (if writable (connection_handle s) then failing writable rest
      else h # failing writable rest)"
  by (simp add: failing_def)

lemma deliver_registry:
  "fst (deliver ev writable rest reg) =
     reg\<lparr>subscribers :=
       filter (\<lambda>(h, s). h \<notin> set (failing writable rest)) (subscribers reg)\<rparr>"
proof (induction rest arbitrary: reg)
  case Nil
  then show ?case by (simp add: failing_Nil)
next
  case (Cons a rest)
  obtain h s where a: "a = (h, s)" by (cases a)
  show ?case
  proof (cases "writable (connection_handle s)")
    case True
    then show ?thesis
      unfolding a fst_deliver_Cons failing_Cons by (simp add: Cons.IH)
  next
    case False
    have "filter (\<lambda>(h', s'). h' \<notin> set (failing writable rest))
            (filter (\<lambda>(h', s'). h' \<noteq> h) (subscribers reg)) =
          filter (\<lambda>(h', s'). h' \<notin> set (h # failing writable rest)) (subscribers reg)"
      unfolding filter_filter by (rule filter_cong) auto
    with False show ?thesis
      unfolding a fst_deliver_Cons failing_Cons by (simp add: Cons.IH unsubscribe_def)
  qed
qed

lemma failing_member:
  "distinct (map fst subs) \<Longrightarrow> (h, s) \<in> set subs \<Longrightarrow>
     (h \<in> set (failing writable subs)) = (\<not> writable (connection_handle s))"
proof (induction subs)
  case Nil
  then show ?case by simp
next
  case (Cons a subs)
  obtain h' s' where a: "a = (h', s')" by (cases a)
  show ?case
  proof (cases "(h, s) = (h', s')")
    case True
    with Cons.prems a have "h \<notin> fst ` set subs" by auto
    then have "h \<notin> set (failing writable subs)"
      by (auto simp: failing_def)
    with True a show ?thesis
      by (simp add: failing_Cons)
  next
    case False
    with Cons.prems a have in_subs: "(h, s) \<in> set subs" by auto
    then have "h \<in> fst ` set subs" by force
    with Cons.prems a have "h \<noteq> h'" by auto
    moreover from Cons.prems in_subs
    have "(h \<in> set (failing writable subs)) = (\<not> writable (connection_handle s))"
      by (intro Cons.IH) simp_all
    ultimately show ?thesis
      unfolding a failing_Cons by simp
  qed
qed

lemma publish_subscribers:
  assumes "distinct (map fst (subscribers reg))"
  shows "subscribers (fst (publish ev writable reg)) =
     filter (\<lambda>(h, s). writable (connection_handle s)) (subscribers reg)"
proof -
  have "filter (\<lambda>(h, s). h \<notin> set (failing writable (subscribers reg))) (subscribers reg) =
        filter (\<lambda>(h, s). writable (connection_handle s)) (subscribers reg)"
    by (rule filter_cong) (auto simp: failing_member [OF assms])
  then show ?thesis
    by (simp add: publish_def deliver_registry)
qed

lemma publish_next_handle: "next_handle (fst (publish ev writable reg)) = next_handle reg"
  by (simp add: publish_def deliver_registry)

lemma publish_handles_subset:
  "fst ` set (subscribers (fst (publish ev writable reg))) \<subseteq> fst ` set (subscribers reg)"
  by (auto simp: publish_def deliver_registry)

lemma target_outcome:
  "target (case x of (h, s) \<Rightarrow> if writable (connection_handle s) then Delivered h ev
                              else DeliveryFault h) = fst x"
  by (cases x) simp

lemma publish_targets:
  "map target (snd (publish ev writable reg)) = map fst (subscribers reg)"
  by (simp add: publish_def deliver_deliveries target_outcome)

lemma fault_is_failing:
  "DeliveryFault h \<in> set (snd (publish ev writable reg)) \<Longrightarrow>
     h \<in> set (failing writable (subscribers reg))"
  by (force simp: publish_def deliver_deliveries failing_def split: if_splits)

lemma publish_removes_failing:
  "DeliveryFault h \<in> set (snd (publish ev writable reg)) \<Longrightarrow>
     h \<notin> fst ` set (subscribers (fst (publish ev writable reg)))"
proof -
  assume "DeliveryFault h \<in> set (snd (publish ev writable reg))"
  then have "h \<in> set (failing writable (subscribers reg))"
    by (rule fault_is_failing)
  then show ?thesis
    by (auto simp: publish_def deliver_registry)
qed

lemma calls_never_target_absent:
  "h \<notin> fst ` set (subscribers reg) \<Longrightarrow> h < next_handle reg \<Longrightarrow>
     h \<notin> target ` set (snd (calls cs reg))"
proof (induction cs arbitrary: reg)
  case Nil
  then show ?case by simp
next
  case (Cons c cs)
  show ?case
  proof (cases c)
    case (Publish ev writable)
    have "target ` set (snd (publish ev writable reg)) = fst ` set (subscribers reg)"
      using publish_targets [of ev writable reg] by (metis list.set_map)
    with Cons.prems have 1: "h \<notin> target ` set (snd (publish ev writable reg))"
      by simp
    from Cons.prems have "h \<notin> fst ` set (subscribers (fst (publish ev writable reg)))"
      using publish_handles_subset [of ev writable reg] by blast
    moreover from Cons.prems have "h < next_handle (fst (publish ev writable reg))"
      by (simp add: publish_next_handle)
    ultimately have "h \<notin> target ` set (snd (calls cs (fst (publish ev writable reg))))"
      by (rule Cons.IH)
    with 1 Publish show ?thesis
      by (auto simp: case_prod_unfold)
  next
    case (Subscribe conn now)
    from Cons.prems have "h \<notin> fst ` set (subscribers (snd (subscribe conn now reg)))"
      by (auto simp: subscribe_def split: option.splits)
    moreover from Cons.prems have "h < next_handle (snd (subscribe conn now reg))"
      by (auto simp: subscribe_def split: option.splits)
    ultimately have "h \<notin> target ` set (snd (calls cs (snd (subscribe conn now reg))))"
      by (rule Cons.IH)
    with Subscribe show ?thesis by simp
  next
    case (Unsubscribe h')
    from Cons.prems have "h \<notin> fst ` set (subscribers (unsubscribe h' reg))"
      by (auto simp: unsubscribe_def)
    moreover from Cons.prems have "h < next_handle (unsubscribe h' reg)"
      by (simp add: unsubscribe_def)
    ultimately have "h \<notin> target ` set (snd (calls cs (unsubscribe h' reg)))"
      by (rule Cons.IH)
    with Unsubscribe show ?thesis by simp
  qed
qed

lemma well_formed_subscribe: "well_formed reg \<Longrightarrow> well_formed (snd (subscribe c now reg))"
  by (auto simp: well_formed_def subscribe_def list_all_iff split: option.splits)

lemma well_formed_unsubscribe: "well_formed reg \<Longrightarrow> well_formed (unsubscribe h reg)"
  by (auto simp: well_formed_def unsubscribe_def list_all_iff distinct_map_filter)

lemma well_formed_publish: "well_formed reg \<Longrightarrow> well_formed (fst (publish ev writable reg))"
  by (auto simp: well_formed_def publish_def deliver_registry list_all_iff distinct_map_filter)

lemma well_formed_calls: "well_formed reg \<Longrightarrow> well_formed (fst (calls cs reg))"
proof (induction cs arbitrary: reg)
  case Nil
  then show ?case by simp
next
  case (Cons c cs)
  show ?case
  proof (cases c)
    case (Publish ev writable)
    from Cons.prems have "well_formed (fst (calls cs (fst (publish ev writable reg))))"
      by (intro Cons.IH well_formed_publish)
    with Publish show ?thesis
      by (simp add: case_prod_unfold)
  next
    case (Subscribe conn now)
    from Cons.prems have "well_formed (fst (calls cs (snd (subscribe conn now reg))))"
      by (intro Cons.IH well_formed_subscribe)
    with Subscribe show ?thesis by simp
  next
    case (Unsubscribe h)
    from Cons.prems have "well_formed (fst (calls cs (unsubscribe h reg)))"
      by (intro Cons.IH well_formed_unsubscribe)
    with Unsubscribe show ?thesis by simp
  qed
qed

lemma well_formed_reachable: "well_formed (fst (calls cs empty_registry))"
  by (rule well_formed_calls) (simp add: well_formed_def empty_registry_def)

text \<open>
  C4. A publish attempts one delivery to every subscriber registered at the time of the
  call, in registration order, whatever happens to the others: the event is delivered to
  each subscriber whose connection can be written to, and the delivery to each of the
  others fails. Exactly the failing subscribers are removed from the registry, and no
  later publish, after any sequence of further calls, attempts a delivery to one of them.
\<close>

theorem publish_isolates_failing_subscriber:
  assumes "well_formed reg" and "publish ev writable reg = (reg', ds)"
  shows "ds = map (\<lambda>(h, s). if writable (connection_handle s) then Delivered h ev
                          else DeliveryFault h) (subscribers reg) \<and>
     subscribers reg' = filter (\<lambda>(h, s). writable (connection_handle s)) (subscribers reg) \<and>
     (\<forall>h. DeliveryFault h \<in> set ds \<longrightarrow>
        h \<notin> fst ` set (subscribers reg') \<and>
        (\<forall>cs. h \<notin> target ` set (snd (calls cs reg'))))"
proof -
  from assms(2) have reg': "reg' = fst (publish ev writable reg)"
    and ds: "ds = snd (publish ev writable reg)"
    by simp_all
  have 1: "ds = map (\<lambda>(h, s). if writable (connection_handle s) then Delivered h ev
                          else DeliveryFault h) (subscribers reg)"
    unfolding ds by (simp add: publish_def deliver_deliveries)
  from assms(1) have 2: "subscribers reg' =
      filter (\<lambda>(h, s). writable (connection_handle s)) (subscribers reg)"
    unfolding reg' by (simp add: publish_subscribers well_formed_def)
  have 3: "h \<notin> fst ` set (subscribers reg') \<and> (\<forall>cs. h \<notin> target ` set (snd (calls cs reg')))"
    if h: "DeliveryFault h \<in> set ds" for h
  proof -
    from h have gone: "h \<notin> fst ` set (subscribers reg')"
      unfolding ds reg' by (rule publish_removes_failing)
    from h have "target (DeliveryFault h) \<in> target ` set ds"
      by (rule imageI)
    then have "h \<in> set (map target ds)"
      by simp
    then have "h \<in> set (map fst (subscribers reg))"
      unfolding ds publish_targets .
    with assms(1) have "h < next_handle reg"
      by (auto simp: well_formed_def list_all_iff)
    then have "h < next_handle reg'"
      unfolding reg' by (simp add: publish_next_handle)
    with gone show ?thesis
      by (simp add: calls_never_target_absent)
  qed
  from 1 2 3 show ?thesis by blast
qed

theorem publish_isolates_failing_subscriber_witness:
  "well_formed
     \<lparr>subscribers =
        [(0, \<lparr>connection_handle = 10, principal = ''ann'', subscribed_since = 1\<rparr>),
         (1, \<lparr>connection_handle = 11, principal = ''bob'', subscribed_since = 2\<rparr>)],
      next_handle = 2\<rparr> \<and>
   publish \<lparr>entityKind = TaskKind, entityId = 7, operation = Updated, timestamp = 3\<rparr>
     (\<lambda>c. c \<noteq> 10)
     \<lparr>subscribers =
        [(0, \<lparr>connection_handle = 10, principal = ''ann'', subscribed_since = 1\<rparr>),
         (1, \<lparr>connection_handle = 11, principal = ''bob'', subscribed_since = 2\<rparr>)],
      next_handle = 2\<rparr> =
     (\<lparr>subscribers =
        [(1, \<lparr>connection_handle = 11, principal = ''bob'', subscribed_since = 2\<rparr>)],
       next_handle = 2\<rparr>,
      [DeliveryFault 0,
       Delivered 1 \<lparr>entityKind = TaskKind, entityId = 7, operation = Updated, timestamp = 3\<rparr>]) \<and>
   0 \<notin> target ` set (snd (calls
      [Subscribe \<lparr>connection_id = 12, authenticated = Some ''cy''\<rparr> 4,
       Publish \<lparr>entityKind = PartKind, entityId = 8, operation = Created, timestamp = 5\<rparr>
         (\<lambda>c. True)]
      \<lparr>subscribers =
        [(1, \<lparr>connection_handle = 11, principal = ''bob'', subscribed_since = 2\<rparr>)],
       next_handle = 2\<rparr>))"
proof -
  let ?ev = "\<lparr>entityKind = TaskKind, entityId = 7, operation = Updated, timestamp = 3\<rparr>"
  let ?reg = "\<lparr>subscribers =
        [(0, \<lparr>connection_handle = 10, principal = ''ann'', subscribed_since = 1\<rparr>),
         (1, \<lparr>connection_handle = 11, principal = ''bob'', subscribed_since = 2\<rparr>)],
      next_handle = 2\<rparr>"
  let ?reg' = "\<lparr>subscribers =
        [(1, \<lparr>connection_handle = 11, principal = ''bob'', subscribed_since = 2\<rparr>)],
       next_handle = 2\<rparr>"
  have wf: "well_formed ?reg"
    by (simp add: well_formed_def)
  have run: "publish ?ev (\<lambda>c. c \<noteq> 10) ?reg = (?reg', [DeliveryFault 0, Delivered 1 ?ev])"
    by (simp add: publish_def unsubscribe_def)
  from publish_isolates_failing_subscriber [OF wf run]
  have "\<forall>h. DeliveryFault h \<in> set [DeliveryFault 0, Delivered 1 ?ev] \<longrightarrow>
        h \<notin> fst ` set (subscribers ?reg') \<and>
        (\<forall>cs. h \<notin> target ` set (snd (calls cs ?reg')))"
    by blast
  then have "\<forall>cs. 0 \<notin> target ` set (snd (calls cs ?reg'))"
    by simp
  with wf run show ?thesis
    by blast
qed

section \<open>Properties of the transfer\<close>

subsection \<open>Evaluation\<close>

text \<open>The definitions that a concrete run unfolds to.\<close>

lemmas eval_defs = run_def transfer_def transfer_unit_def transfer_row_def write_row_def refused_def
  map_row_def fill_defaults_def mapped_columns_def rename_columns_def column_def soft_issue_def
  fk_target_missing_def key_present_def visible_def count_inserted_def count_warned_def
  count_rejected_def empty_report_def row_count_def unit_of_def transfer_order_def Let_def

lemmas scenario_defs = scenario_schema_def scenario_store_def empty_destination_def
  constrained_destination_def unreachable_destination_def strict_destination_def
  linked_schema_def linked_store_def

subsection \<open>The events of a run\<close>

text \<open>
  A run that is stopped by a fatal fault leaves a part of the events of the run that is
  not stopped: the events up to the fault.
\<close>

lemma write_row_cases:
  obtains (lost) "write_row d u tm rec = (ConnectivityLost, d)"
        "writes_before_outage d = Some 0"
  | (violation) d' where "write_row d u tm rec = (ConstraintViolation, d')"
        "refused d (tables d) u tm rec" "tables d' = tables d"
        "enforces_unique d' = enforces_unique d"
        "deferred_foreign_keys d' = deferred_foreign_keys d"
        "writes_before_outage d \<noteq> Some 0"
  | (inserted) d' where "write_row d u tm rec = (Inserted, d')"
        "\<not> refused d (tables d) u tm rec"
        "tables d' = (tables d)(destination_table u := tables d (destination_table u) @ [payload rec])"
        "enforces_unique d' = enforces_unique d"
        "deferred_foreign_keys d' = deferred_foreign_keys d"
        "writes_before_outage d \<noteq> Some 0"
  by (cases "writes_before_outage d = Some 0"; cases "refused d (tables d) u tm rec")
    (simp_all add: write_row_def Let_def)

lemma trace_transfer_row:
  "trace (snd (transfer_row sch opts now u s r)) = trace s @ attempts sch opts now u [r]"
  by (rule write_row_cases [where d = "destination s" and u = u and tm = "sch (table_name u)"
        and rec = "map_row (sch (table_name u)) now r"])
    (simp_all add: transfer_row_def attempts_def accepted_def records_def Let_def)

lemma attempts_Cons:
  "attempts sch opts now u (r # rs) = attempts sch opts now u [r] @ attempts sch opts now u rs"
  by (simp add: attempts_def accepted_def records_def)

lemma trace_transfer_rows:
  "\<exists>E rest. trace (snd (transfer_rows sch opts now u rows s)) = trace s @ E \<and>
     attempts sch opts now u rows = E @ rest \<and>
     (fst (transfer_rows sch opts now u rows s) = None \<longrightarrow> rest = [])"
proof (induction rows arbitrary: s)
  case Nil
  then show ?case by (simp add: attempts_def accepted_def records_def)
next
  case (Cons r rows)
  obtain f s' where row: "transfer_row sch opts now u s r = (f, s')"
    by (cases "transfer_row sch opts now u s r")
  from trace_transfer_row [of sch opts now u s r] row
  have tr: "trace s' = trace s @ attempts sch opts now u [r]"
    by simp
  show ?case
  proof (cases f)
    case None
    from Cons.IH [of s'] obtain E rest
      where "trace (snd (transfer_rows sch opts now u rows s')) = trace s' @ E"
        and "attempts sch opts now u rows = E @ rest"
        and "fst (transfer_rows sch opts now u rows s') = None \<longrightarrow> rest = []"
      by auto
    with row None tr
    have "trace (snd (transfer_rows sch opts now u (r # rows) s)) =
        trace s @ (attempts sch opts now u [r] @ E) \<and>
      attempts sch opts now u (r # rows) = (attempts sch opts now u [r] @ E) @ rest \<and>
      (fst (transfer_rows sch opts now u (r # rows) s) = None \<longrightarrow> rest = [])"
      by (simp add: attempts_Cons [of _ _ _ _ r rows])
    then show ?thesis
      by - (rule exI [where x = "attempts sch opts now u [r] @ E"],
          rule exI [where x = rest], simp)
  next
    case (Some x)
    with row tr
    have "trace (snd (transfer_rows sch opts now u (r # rows) s)) =
        trace s @ attempts sch opts now u [r] \<and>
      attempts sch opts now u (r # rows) =
        attempts sch opts now u [r] @ attempts sch opts now u rows \<and>
      (fst (transfer_rows sch opts now u (r # rows) s) = None \<longrightarrow>
        attempts sch opts now u rows = [])"
      by (simp add: attempts_Cons [of _ _ _ _ r rows])
    then show ?thesis
      by - (rule exI [where x = "attempts sch opts now u [r]"],
          rule exI [where x = "attempts sch opts now u rows"], simp)
  qed
qed

lemma trace_transfer_unit:
  "\<exists>E rest. trace (snd (transfer_unit sch opts now u rows s)) = trace s @ E \<and>
     unit_events sch opts now u rows = E @ rest \<and>
     (fst (transfer_unit sch opts now u rows s) = None \<longrightarrow> rest = [])"
proof -
  let ?s0 = "s\<lparr>trace := trace s @ [UnitStarted (table_name u)]\<rparr>"
  obtain f s' where rows: "transfer_rows sch opts now u rows ?s0 = (f, s')"
    by (cases "transfer_rows sch opts now u rows ?s0")
  from trace_transfer_rows [of sch opts now u rows ?s0] rows obtain E rest
    where tr: "trace s' = trace s @ UnitStarted (table_name u) # E"
      and at: "attempts sch opts now u rows = E @ rest"
      and fin: "f = None \<longrightarrow> rest = []"
    by auto
  show ?thesis
  proof (cases f)
    case None
    with rows tr at fin
    have "trace (snd (transfer_unit sch opts now u rows s)) =
        trace s @ (UnitStarted (table_name u) # E @ [UnitCompleted (table_name u)]) \<and>
      unit_events sch opts now u rows =
        (UnitStarted (table_name u) # E @ [UnitCompleted (table_name u)]) @ [] \<and>
      (fst (transfer_unit sch opts now u rows s) = None \<longrightarrow> ([]::event list) = [])"
      by (simp add: transfer_unit_def unit_events_def)
    then show ?thesis
      by - (rule exI [where x = "UnitStarted (table_name u) # E @ [UnitCompleted (table_name u)]"],
          rule exI [where x = "[]"], simp)
  next
    case (Some x)
    with rows tr at
    have "trace (snd (transfer_unit sch opts now u rows s)) =
        trace s @ (UnitStarted (table_name u) # E) \<and>
      unit_events sch opts now u rows =
        (UnitStarted (table_name u) # E) @ (rest @ [UnitCompleted (table_name u)]) \<and>
      (fst (transfer_unit sch opts now u rows s) = None \<longrightarrow>
         rest @ [UnitCompleted (table_name u)] = [])"
      by (simp add: transfer_unit_def unit_events_def)
    then show ?thesis
      by - (rule exI [where x = "UnitStarted (table_name u) # E"],
          rule exI [where x = "rest @ [UnitCompleted (table_name u)]"], simp)
  qed
qed

lemma trace_transfer_units:
  "\<exists>E rest. trace (snd (transfer_units sch opts now src us s)) = trace s @ E \<and>
     run_events sch opts now src us = E @ rest"
proof (induction us arbitrary: s)
  case Nil
  then show ?case by simp
next
  case (Cons u us)
  show ?case
  proof (cases "src (table_name u)")
    case None
    then show ?thesis by simp
  next
    case (Some rows)
    obtain f s' where unit: "transfer_unit sch opts now u rows s = (f, s')"
      by (cases "transfer_unit sch opts now u rows s")
    from trace_transfer_unit [of sch opts now u rows s] unit obtain E rest
      where tr: "trace s' = trace s @ E"
        and ev: "unit_events sch opts now u rows = E @ rest"
        and fin: "f = None \<longrightarrow> rest = []"
      by auto
    show ?thesis
    proof (cases f)
      case None
      from Cons.IH [of s'] obtain E' rest'
        where "trace (snd (transfer_units sch opts now src us s')) = trace s' @ E'"
          and "run_events sch opts now src us = E' @ rest'"
        by blast
      with Some unit None tr ev fin
      have "trace (snd (transfer_units sch opts now src (u # us) s)) = trace s @ (E @ E') \<and>
        run_events sch opts now src (u # us) = (E @ E') @ rest'"
        by simp
      then show ?thesis
        by - (rule exI [where x = "E @ E'"], rule exI [where x = rest'], simp)
    next
      case (Some x)
      with \<open>src (table_name u) = Some rows\<close> unit tr ev
      have "trace (snd (transfer_units sch opts now src (u # us) s)) = trace s @ E \<and>
        run_events sch opts now src (u # us) = E @ (rest @ run_events sch opts now src us)"
        by simp
      then show ?thesis
        by - (rule exI [where x = E],
            rule exI [where x = "rest @ run_events sch opts now src us"], simp)
    qed
  qed
qed

lemma trace_transfer:
  assumes "transfer sch plan now src dest opts = (f, rep, d', tr)"
  shows "\<exists>E rest. tr = E @ [ReportWritten] \<and> run_events sch opts now src plan = E @ rest"
proof -
  let ?s0 = "\<lparr>destination = dest, pending = (\<lambda>t. []), report = empty_report, trace = []\<rparr>"
  from trace_transfer_units [of sch opts now src plan ?s0] obtain E rest
    where "trace (snd (transfer_units sch opts now src plan ?s0)) = E"
      and "run_events sch opts now src plan = E @ rest"
    by auto
  with assms show ?thesis
    by (auto simp: transfer_def split: prod.splits)
qed

lemma attempted_in_unit_events:
  "InsertAttempted t rec \<in> set (unit_events sch opts now u rows) \<Longrightarrow>
     \<not> dryRun opts \<and> t = table_name u \<and> rec \<in> set (accepted sch now u rows)"
  by (auto simp: unit_events_def attempts_def split: if_splits)

lemma attempted_in_run_events:
  "InsertAttempted t rec \<in> set (run_events sch opts now src us) \<Longrightarrow>
     \<not> dryRun opts \<and>
     (\<exists>u rows. u \<in> set us \<and> src (table_name u) = Some rows \<and> t = table_name u \<and>
        rec \<in> set (accepted sch now u rows))"
proof (induction us)
  case Nil
  then show ?case by simp
next
  case (Cons u us)
  show ?case
  proof (cases "src (table_name u)")
    case None
    with Cons.prems show ?thesis by simp
  next
    case (Some rows)
    with Cons.prems consider
      "InsertAttempted t rec \<in> set (unit_events sch opts now u rows)" |
      "InsertAttempted t rec \<in> set (run_events sch opts now src us)"
      by auto
    then show ?thesis
    proof cases
      case 1
      from attempted_in_unit_events [OF 1] Some show ?thesis
        by auto
    next
      case 2
      from Cons.IH [OF 2] show ?thesis
        by auto
    qed
  qed
qed

subsection \<open>Rejected records\<close>

lemma map_row_missing_key:
  "column (rename_columns (renames tm) r) (primary_key tm) = Null \<Longrightarrow>
     status (map_row tm now r) = Rejected \<and> natural_key (map_row tm now r) = Null"
  by (simp add: map_row_def Let_def)

lemma map_row_not_rejected:
  "status (map_row tm now r) \<noteq> Rejected \<Longrightarrow>
     natural_key (map_row tm now r) \<noteq> Null \<and>
     natural_key (map_row tm now r) = column (rename_columns (renames tm) r) (primary_key tm)"
  by (simp add: map_row_def Let_def split: if_splits)

lemma accepted_not_rejected:
  "rec \<in> set (accepted sch now u rows) \<Longrightarrow> status rec \<noteq> Rejected \<and> natural_key rec \<noteq> Null"
  by (auto simp: accepted_def records_def dest: map_row_not_rejected)

text \<open>
  C3. A source row whose primary key is missing after mapping is given the status
  rejected by the Row Mapper, and no run passes a rejected record to the write step:
  every insert a run issues is for a record that is not rejected and has a key, so no
  insert is issued for the record of such a row.
\<close>

theorem missing_primary_key_is_rejected_and_never_written:
  "(column (rename_columns (renames tm) r) (primary_key tm) = Null \<longrightarrow>
      status (map_row tm now r) = Rejected) \<and>
   (transfer sch plan now src dest opts = (f, rep, d', tr) \<longrightarrow>
      (\<forall>t rec. InsertAttempted t rec \<in> set tr \<longrightarrow>
         status rec \<noteq> Rejected \<and> natural_key rec \<noteq> Null) \<and>
      (\<forall>t r'. column (rename_columns (renames (sch t)) r') (primary_key (sch t)) = Null \<longrightarrow>
         InsertAttempted t (map_row (sch t) now r') \<notin> set tr))"
proof -
  have 1: "status rec \<noteq> Rejected \<and> natural_key rec \<noteq> Null"
    if run: "transfer sch plan now src dest opts = (f, rep, d', tr)"
      and ev: "InsertAttempted t rec \<in> set tr" for t rec
  proof -
    from trace_transfer [OF run] obtain E rest
      where "tr = E @ [ReportWritten]" and "run_events sch opts now src plan = E @ rest"
      by auto
    with ev have "InsertAttempted t rec \<in> set (run_events sch opts now src plan)"
      by auto
    from attempted_in_run_events [OF this] obtain u rows
      where "rec \<in> set (accepted sch now u rows)"
      by blast
    then show ?thesis
      by (rule accepted_not_rejected)
  qed
  have 2: "InsertAttempted t (map_row (sch t) now r') \<notin> set tr"
    if run: "transfer sch plan now src dest opts = (f, rep, d', tr)"
      and key: "column (rename_columns (renames (sch t)) r') (primary_key (sch t)) = Null"
    for t r'
  proof
    assume "InsertAttempted t (map_row (sch t) now r') \<in> set tr"
    from 1 [OF run this] map_row_missing_key [OF key, of now] show False
      by simp
  qed
  from 1 2 map_row_missing_key [of tm r now] show ?thesis
    by blast
qed

theorem missing_primary_key_is_rejected_and_never_written_witness:
  "status (map_row (scenario_schema ''parts'') 100 [(''name'', TextCell ''orphan'')]) = Rejected \<and>
   InsertAttempted ''parts'' (map_row (scenario_schema ''parts'') 100 [(''name'', TextCell ''orphan'')])
     \<notin> set (snd (snd (snd (run scenario_schema 100
       (\<lambda>t. Some (if t = ''parts''
                   then [[(''name'', TextCell ''orphan'')],
                         [(''id'', IntCell 1), (''name'', TextCell ''blade'')]]
                   else []))
       empty_destination \<lparr>dryRun = False, verbose = False\<rparr>)))) \<and>
   InsertAttempted ''parts''
        \<lparr>natural_key = IntCell 1,
         payload = [(''id'', IntCell 1), (''name'', TextCell ''blade''),
                    (''created_at'', IntCell 100), (''updated_at'', IntCell 100)],
         status = Valid\<rparr>
     \<in> set (snd (snd (snd (run scenario_schema 100
       (\<lambda>t. Some (if t = ''parts''
                   then [[(''name'', TextCell ''orphan'')],
                         [(''id'', IntCell 1), (''name'', TextCell ''blade'')]]
                   else []))
       empty_destination \<lparr>dryRun = False, verbose = False\<rparr>))))"
proof -
  let ?orphan = "[(''name'', TextCell ''orphan'')]"
  let ?src = "\<lambda>t::string. Some (if t = ''parts''
                   then [?orphan, [(''id'', IntCell 1), (''name'', TextCell ''blade'')]]
                   else [])"
  let ?opts = "\<lparr>dryRun = False, verbose = False\<rparr>"
  let ?tm = "scenario_schema ''parts''"
  obtain f rep d' tr
    where run: "transfer scenario_schema transfer_order 100 ?src empty_destination ?opts =
      (f, rep, d', tr)"
    by (cases "transfer scenario_schema transfer_order 100 ?src empty_destination ?opts")
  have missing: "column (rename_columns (renames ?tm) ?orphan) (primary_key ?tm) = Null"
    by (simp add: scenario_schema_def rename_columns_def column_def)
  note inst = missing_primary_key_is_rejected_and_never_written
    [of ?tm ?orphan 100 scenario_schema transfer_order ?src empty_destination ?opts f rep d' tr]
  from inst missing have 1: "status (map_row ?tm 100 ?orphan) = Rejected"
    by blast
  from inst run missing have 2: "InsertAttempted ''parts'' (map_row ?tm 100 ?orphan) \<notin> set tr"
    by blast
  from run have tr: "tr = snd (snd (snd (run scenario_schema 100 ?src empty_destination ?opts)))"
    by (simp add: run_def)
  have 3: "InsertAttempted ''parts''
        \<lparr>natural_key = IntCell 1,
         payload = [(''id'', IntCell 1), (''name'', TextCell ''blade''),
                    (''created_at'', IntCell 100), (''updated_at'', IntCell 100)],
         status = Valid\<rparr>
     \<in> set (snd (snd (snd (run scenario_schema 100 ?src empty_destination ?opts))))"
    by (simp add: eval_defs scenario_defs)
  from 1 2 3 show ?thesis
    unfolding tr by blast
qed

subsection \<open>The order of the units\<close>

lemma append_eq_split:
  "xs @ ys = b @ e # a \<Longrightarrow> e \<notin> set xs \<Longrightarrow> \<exists>zs. b = xs @ zs \<and> ys = zs @ e # a"
proof (induction xs arbitrary: b)
  case Nil
  then show ?case by simp
next
  case (Cons x xs)
  from Cons.prems obtain b' where b: "b = x # b'"
    by (cases b) auto
  with Cons.prems have "xs @ ys = b' @ e # a" "e \<notin> set xs"
    by simp_all
  from Cons.IH [OF this] b show ?case
    by auto
qed

lemma event_table_unit_events:
  "e \<in> set (unit_events sch opts now u rows) \<Longrightarrow> event_table e = Some (table_name u)"
  by (auto simp: unit_events_def attempts_def split: if_splits)

lemma event_table_run_events:
  "e \<in> set (run_events sch opts now src us) \<Longrightarrow>
     \<exists>u \<in> set us. event_table e = Some (table_name u)"
proof (induction us)
  case Nil
  then show ?case by simp
next
  case (Cons u us)
  then show ?case
    by (cases "src (table_name u)") (auto dest: event_table_unit_events)
qed

lemma respects_from_fresh:
  "respects_from completed us \<Longrightarrow> u \<in> set us \<Longrightarrow> table_name u \<notin> set completed"
proof (induction us arbitrary: completed)
  case Nil
  then show ?case by simp
next
  case (Cons u0 us)
  show ?case
  proof (cases "u = u0")
    case True
    with Cons.prems show ?thesis by simp
  next
    case False
    with Cons.prems have "respects_from (table_name u0 # completed) us" "u \<in> set us"
      by simp_all
    from Cons.IH [OF this] show ?thesis by simp
  qed
qed

lemma respects_from_order:
  assumes "respects_from completed us"
    and "run_events sch opts now src us = before @ e # after"
    and "event_table e = Some (table_name u)" and "u \<in> set us"
    and "p \<in> set (predecessors u)"
  shows "(p \<in> set completed \<or> UnitCompleted p \<in> set before) \<and>
     (\<forall>e' \<in> set after. event_table e' \<noteq> Some p)"
  using assms
proof (induction us arbitrary: completed before)
  case Nil
  then show ?case by simp
next
  case (Cons u0 us)
  from Cons.prems(1) have preds0: "set (predecessors u0) \<subseteq> set completed"
    and fresh0: "table_name u0 \<notin> set completed"
    and rest: "respects_from (table_name u0 # completed) us"
    by (auto simp: list_all_iff)
  from Cons.prems(2) obtain rows where rows: "src (table_name u0) = Some rows"
    by (cases "src (table_name u0)") auto
  let ?seg = "unit_events sch opts now u0 rows"
  let ?rest = "run_events sch opts now src us"
  from Cons.prems(2) rows have split: "?seg @ ?rest = before @ e # after"
    by simp
  show ?case
  proof (cases "table_name u = table_name u0")
    case True
    have "u = u0"
    proof (rule ccontr)
      assume "u \<noteq> u0"
      with Cons.prems(4) have "u \<in> set us" by simp
      from respects_from_fresh [OF rest this] True show False by simp
    qed
    with Cons.prems(5) preds0 have p: "p \<in> set completed" by auto
    have "event_table e' \<noteq> Some p" if "e' \<in> set after" for e'
    proof -
      from that split have "e' \<in> set ?seg \<or> e' \<in> set ?rest"
        by (metis Un_iff list.set_intros(2) set_append)
      then show ?thesis
      proof
        assume "e' \<in> set ?seg"
        with fresh0 p show ?thesis
          by (auto dest: event_table_unit_events)
      next
        assume "e' \<in> set ?rest"
        then obtain u' where "u' \<in> set us" "event_table e' = Some (table_name u')"
          by (blast dest: event_table_run_events)
        with respects_from_fresh [OF rest, of u'] p show ?thesis
          by auto
      qed
    qed
    with p show ?thesis by blast
  next
    case False
    with Cons.prems(4) have u: "u \<in> set us" by auto
    from False Cons.prems(3) have "e \<notin> set ?seg"
      by (auto dest: event_table_unit_events)
    from append_eq_split [OF split this] obtain zs
      where before: "before = ?seg @ zs" and zs: "?rest = zs @ e # after"
      by blast
    from Cons.IH [OF rest zs Cons.prems(3) u Cons.prems(5)]
    have ih: "(p \<in> set (table_name u0 # completed) \<or> UnitCompleted p \<in> set zs) \<and>
        (\<forall>e' \<in> set after. event_table e' \<noteq> Some p)" .
    have "UnitCompleted (table_name u0) \<in> set ?seg"
      by (simp add: unit_events_def)
    with ih before show ?thesis
      by auto
  qed
qed

lemma starts_in_unit_events:
  "filter (\<lambda>x. x = UnitStarted t) (unit_events sch opts now u rows) =
     (if t = table_name u then [UnitStarted t] else [])"
  by (auto simp: unit_events_def attempts_def filter_empty_conv)

lemma starts_once:
  "respects_from completed us \<Longrightarrow>
     length (filter (\<lambda>x. x = UnitStarted t) (run_events sch opts now src us)) \<le> 1"
proof (induction us arbitrary: completed)
  case Nil
  then show ?case by simp
next
  case (Cons u0 us)
  from Cons.prems have rest: "respects_from (table_name u0 # completed) us"
    by simp
  show ?case
  proof (cases "src (table_name u0)")
    case None
    then show ?thesis by simp
  next
    case (Some rows)
    show ?thesis
    proof (cases "t = table_name u0")
      case True
      have "filter (\<lambda>x. x = UnitStarted t) (run_events sch opts now src us) = []"
      proof (rule ccontr)
        assume "filter (\<lambda>x. x = UnitStarted t) (run_events sch opts now src us) \<noteq> []"
        then have "UnitStarted t \<in> set (run_events sch opts now src us)"
          by (auto simp: filter_empty_conv)
        then obtain u' where "u' \<in> set us" "table_name u' = t"
          by (auto dest: event_table_run_events)
        with respects_from_fresh [OF rest, of u'] True show False
          by simp
      qed
      with Some True show ?thesis
        by (simp add: starts_in_unit_events)
    next
      case False
      with Some Cons.IH [OF rest] show ?thesis
        by (simp add: starts_in_unit_events)
    qed
  qed
qed

text \<open>
  C2. Let the table order be dependency-respecting, and let a run issue an insert for a
  table, or start its unit, at some point. Then each dependency predecessor of the table
  has completed before that point, and from that point on its unit is not started and no
  insert for it is issued: all the inserts for the predecessor have been attempted
  before. No unit is started twice.
\<close>

theorem predecessors_complete_before_unit:
  assumes "dependency_respecting plan"
    and "transfer sch plan now src dest opts = (f, rep, d', tr)"
    and "tr = before @ e # after"
    and "e = UnitStarted (table_name u) \<or> (\<exists>rec. e = InsertAttempted (table_name u) rec)"
    and "u \<in> set plan" and "p \<in> set (predecessors u)"
  shows "UnitCompleted p \<in> set before \<and> UnitStarted p \<notin> set after \<and>
     (\<forall>rec'. InsertAttempted p rec' \<notin> set after) \<and>
     length (filter (\<lambda>x. x = UnitStarted (table_name u)) tr) \<le> 1"
proof -
  let ?events = "run_events sch opts now src plan"
  from assms(1) have resp: "respects_from [] plan"
    by (simp add: dependency_respecting_def)
  from trace_transfer [OF assms(2)] obtain E rest
    where tr: "tr = E @ [ReportWritten]" and full: "?events = E @ rest"
    by auto
  from assms(4) have e: "event_table e = Some (table_name u)"
    by auto
  then have "e \<noteq> ReportWritten"
    by auto
  with tr assms(3) have "after \<noteq> []"
    by (metis last_snoc last_appendR last.simps list.distinct(1))
  then obtain after' x where after: "after = after' @ [x]"
    by (metis rev_exhaust)
  with tr assms(3) have "E @ [ReportWritten] = (before @ e # after') @ [x]"
    by simp
  then have E: "E = before @ e # after'" and x: "x = ReportWritten"
    by simp_all
  from full E have events: "?events = before @ e # (after' @ rest)"
    by simp
  from respects_from_order [OF resp events e assms(5) assms(6)]
  have 1: "UnitCompleted p \<in> set before" and 2: "\<forall>e' \<in> set after'. event_table e' \<noteq> Some p"
    by simp_all
  from 2 after x have 3: "\<forall>e' \<in> set after. event_table e' \<noteq> Some p"
    by auto
  have 4: "UnitStarted p \<notin> set after"
    using 3 by force
  have 5: "\<forall>rec'. InsertAttempted p rec' \<notin> set after"
    using 3 by force
  have 6: "length (filter (\<lambda>x. x = UnitStarted (table_name u)) tr) \<le> 1"
    unfolding tr using starts_once [OF resp, of "table_name u" sch opts now src] full by simp
  from 1 4 5 6 show ?thesis by blast
qed

theorem predecessors_complete_before_unit_witness:
  "dependency_respecting transfer_order \<and>
   UnitCompleted ''part_categories'' \<in>
     set (take 5 (snd (snd (snd (run scenario_schema 100 scenario_store empty_destination
        \<lparr>dryRun = False, verbose = False\<rparr>))))) \<and>
   (\<forall>rec'. InsertAttempted ''part_categories'' rec' \<notin>
     set (drop 6 (snd (snd (snd (run scenario_schema 100 scenario_store empty_destination
        \<lparr>dryRun = False, verbose = False\<rparr>))))))"
proof -
  let ?opts = "\<lparr>dryRun = False, verbose = False\<rparr>"
  let ?rec = "\<lparr>natural_key = IntCell 1,
         payload = [(''id'', IntCell 1), (''name'', TextCell ''blade''),
                    (''created_at'', IntCell 100), (''updated_at'', IntCell 100)],
         status = Valid\<rparr>"
  let ?u = "unit_of ''parts'' [''part_categories'']"
  obtain f rep d' tr
    where run: "transfer scenario_schema transfer_order 100 scenario_store empty_destination ?opts =
      (f, rep, d', tr)"
    by (cases "transfer scenario_schema transfer_order 100 scenario_store empty_destination ?opts")
  then have tr: "tr = snd (snd (snd (run scenario_schema 100 scenario_store empty_destination ?opts)))"
    by (simp add: run_def)
  have order: "dependency_respecting transfer_order"
    by code_simp
  have "snd (snd (snd (run scenario_schema 100 scenario_store empty_destination ?opts))) ! 5 =
      InsertAttempted ''parts'' ?rec"
    by (simp add: eval_defs scenario_defs)
  moreover have "5 < length (snd (snd (snd (run scenario_schema 100 scenario_store empty_destination ?opts))))"
    by (simp add: eval_defs scenario_defs)
  ultimately have split: "tr = take 5 tr @ InsertAttempted ''parts'' ?rec # drop 6 tr"
    unfolding tr [symmetric] using id_take_nth_drop [of 5 tr] by simp
  have e: "InsertAttempted ''parts'' ?rec = UnitStarted (table_name ?u) \<or>
      (\<exists>rec. InsertAttempted ''parts'' ?rec = InsertAttempted (table_name ?u) rec)"
    by (simp add: unit_of_def)
  have u: "?u \<in> set transfer_order"
    by (simp add: transfer_order_def)
  have p: "''part_categories'' \<in> set (predecessors ?u)"
    by (simp add: unit_of_def)
  from predecessors_complete_before_unit [OF order run split e u p] order show ?thesis
    unfolding tr by blast
qed

subsection \<open>The counts of a report\<close>






subsection \<open>One row\<close>



subsection \<open>A run as a list of rows\<close>







subsection \<open>Dry runs\<close>













subsection \<open>The clock\<close>








subsection \<open>The destination store only grows\<close>










subsection \<open>One row of a real run\<close>





subsection \<open>One row of a run and of its rerun\<close>


subsection \<open>A run and its rerun\<close>










end
